theory Spec2Isabelle
  imports Main "HOL-Library.Word" "HOL-Library.Monad_Syntax"
begin

section \<open>Air data model\<close>

text \<open>
  Modelled from the spec: the headers that declare \<^verbatim>\<open>Arg\<close>, \<^verbatim>\<open>Tmp\<close>, \<^verbatim>\<open>Reg\<close> and
  \<^verbatim>\<open>Inst\<close> are not part of the sources at hand.  A temporary has a bank tag and is
  either precolored (it is a physical register) or allocatable (an index within its
  bank).  An instruction is an opcode with an ordered list of arguments; every argument
  slot has a role and a bank.
\<close>

datatype bank = GP | FP

datatype reg = GPR nat | FPR nat

datatype tmp = RegTmp reg | GPTmp nat | FPTmp nat

fun isGP :: "tmp \<Rightarrow> bool" where
  "isGP (RegTmp (GPR _)) = True"
| "isGP (RegTmp (FPR _)) = False"
| "isGP (GPTmp _) = True"
| "isGP (FPTmp _) = False"

fun isReg :: "tmp \<Rightarrow> bool" where
  "isReg (RegTmp _) = True"
| "isReg _ = False"

fun tmpBank :: "tmp \<Rightarrow> bank" where
  "tmpBank t = (if isGP t then GP else FP)"

datatype role = Use | Def | UseDef | UseAddr

fun isUse :: "role \<Rightarrow> bool" where
  "isUse Use = True"
| "isUse UseDef = True"
| "isUse _ = False"

fun isDef :: "role \<Rightarrow> bool" where
  "isDef Def = True"
| "isDef UseDef = True"
| "isDef _ = False"

datatype arg = Tmp tmp | Stack nat | Imm int

fun isTmp :: "arg \<Rightarrow> bool" where
  "isTmp (Tmp _) = True"
| "isTmp _ = False"

fun argTmp :: "arg \<Rightarrow> tmp option" where
  "argTmp (Tmp t) = Some t"
| "argTmp _ = None"

datatype opcode = Move | MoveDouble | Opcode nat

text \<open>An argument slot: the argument, its role and its bank (\<^verbatim>\<open>Arg::Type\<close>).\<close>

type_synonym slot = "arg \<times> role \<times> bank"

record inst =
  opcode :: opcode
  args :: "slot list"

text \<open>\<^verbatim>\<open>Inst::forEachTmp\<close>: the temporaries of the instruction, in argument order, each
  with the role and bank of its slot.\<close>

fun slotTmps :: "slot list \<Rightarrow> (tmp \<times> role \<times> bank) list" where
  "slotTmps [] = []"
| "slotTmps ((Tmp t, r, b) # xs) = (t, r, b) # slotTmps xs"
| "slotTmps (_ # xs) = slotTmps xs"

definition forEachTmp :: "inst \<Rightarrow> (tmp \<times> role \<times> bank) list" where
  "forEachTmp i = slotTmps (args i)"

text \<open>An \<^verbatim>\<open>Inst*\<close>: the position of the instruction (block, index) together with the
  instruction it points to.\<close>

type_synonym instPtr = "(nat \<times> nat) \<times> inst"

definition deref :: "instPtr \<Rightarrow> inst" where
  "deref p = snd p"

text \<open>\<^verbatim>\<open>inst.args[i].tmp()\<close> for the two arguments of a move.\<close>

definition arg0 :: "instPtr \<Rightarrow> tmp option" where
  "arg0 p = (case args (deref p) of (a, _) # _ \<Rightarrow> argTmp a | _ \<Rightarrow> None)"

definition arg1 :: "instPtr \<Rightarrow> tmp option" where
  "arg1 p = (case args (deref p) of _ # (a, _) # _ \<Rightarrow> argTmp a | _ \<Rightarrow> None)"

section \<open>MoveInstHelper\<close>

text \<open>\<^verbatim>\<open>MoveInstHelper<type>::mayBeCoalescable\<close>: the opcode is the move of the bank and
  both arguments are temporaries (the source asserts there are exactly two arguments,
  of the bank of the move).\<close>

definition moveOpcode :: "bank \<Rightarrow> opcode" where
  "moveOpcode type = (case type of GP \<Rightarrow> Move | FP \<Rightarrow> MoveDouble)"

definition mayBeCoalescable :: "bank \<Rightarrow> inst \<Rightarrow> bool" where
  "mayBeCoalescable type i =
     (if opcode i \<noteq> moveOpcode type then False
      else (case args i of
              (a0, _) # (a1, _) # _ \<Rightarrow> isTmp a0 \<and> isTmp a1
            | _ \<Rightarrow> False))"

section \<open>Containers\<close>

text \<open>A \<^verbatim>\<open>HashSet\<close> or \<^verbatim>\<open>ListHashSet\<close> whose iteration order the allocator observes is a
  list without duplicates, in iteration order: \<^verbatim>\<open>add\<close> appends an absent element,
  \<^verbatim>\<open>remove\<close> deletes it.\<close>

definition hashAdd :: "'a \<Rightarrow> 'a list \<Rightarrow> 'a list" where
  "hashAdd x xs = (if x \<in> set xs then xs else xs @ [x])"

definition hashRemove :: "'a \<Rightarrow> 'a list \<Rightarrow> 'a list" where
  "hashRemove x xs = removeAll x xs"

section \<open>IteratedRegisterCoalescingAllocator: state and interference construction\<close>

text \<open>The members of the allocator.  Vectors indexed by \<^verbatim>\<open>absoluteIndex(tmp)\<close> are
  functions of the temporary; degrees are \<^verbatim>\<open>unsigned\<close>.  An unset entry of
  \<^verbatim>\<open>m_coalescedTmps\<close> or \<^verbatim>\<open>m_coloredTmp\<close> (the empty \<^verbatim>\<open>Tmp()\<close> or \<^verbatim>\<open>Reg()\<close>) is
  \<open>None\<close>.  \<open>numTmps\<close> is \<^verbatim>\<open>code.numTmps(type)\<close>, which fixes the size of the
  vectors.\<close>

record allocator =
  numberOfRegisters :: "32 word"
  numTmps :: nat
  interferenceEdges :: "tmp set set"
  adjacencyList :: "tmp \<Rightarrow> tmp list"
  degrees :: "tmp \<Rightarrow> 32 word"
  moveList :: "tmp \<Rightarrow> instPtr list"
  coloredTmp :: "tmp \<Rightarrow> reg option"
  spilledTmp :: "tmp list"
  coalescedTmps :: "tmp \<Rightarrow> tmp option"
  isOnSelectStack :: "tmp set"
  selectStack :: "tmp list"
  worklistMoves :: "instPtr list"
  activeMoves :: "instPtr set"
  simplifyWorklist :: "tmp list"
  spillWorklist :: "tmp list"
  freezeWorklist :: "tmp list"

text \<open>\<^verbatim>\<open>InterferenceEdge(a, b)\<close>: edges are not directed; the source stores the pair with
  the smaller internal value first, which identifies \<open>(a, b)\<close> with \<open>(b, a)\<close>.\<close>

definition InterferenceEdge :: "tmp \<Rightarrow> tmp \<Rightarrow> tmp set" where
  "InterferenceEdge a b = {a, b}"

text \<open>The constructor: precolored registers have degree \<^verbatim>\<open>UINT_MAX\<close>, everything else
  is empty.  \<open>regs\<close> is \<^verbatim>\<open>regsInPriorityOrder(type)\<close>, a constant of the target, and
  \<open>n\<close> the number of temporaries of the bank.\<close>

definition initAllocator :: "reg list \<Rightarrow> nat \<Rightarrow> allocator" where
  "initAllocator regs n =
     \<lparr> numberOfRegisters = of_nat (length regs),
       numTmps = n,
       interferenceEdges = {},
       adjacencyList = (\<lambda>_. []),
       degrees = (\<lambda>t. if isReg t then - 1 else 0),
       moveList = (\<lambda>_. []),
       coloredTmp = (\<lambda>_. None),
       spilledTmp = [],
       coalescedTmps = (\<lambda>_. None),
       isOnSelectStack = {},
       selectStack = [],
       worklistMoves = [],
       activeMoves = {},
       simplifyWorklist = [],
       spillWorklist = [],
       freezeWorklist = [] \<rparr>"

definition appendAdjacent :: "tmp \<Rightarrow> tmp \<Rightarrow> allocator \<Rightarrow> allocator" where
  "appendAdjacent a b s =
     (if \<not> isReg a
      then s\<lparr> adjacencyList := (adjacencyList s)(a := adjacencyList s a @ [b]),
              degrees := (degrees s)(a := degrees s a + 1) \<rparr>
      else s)"

definition addEdge :: "tmp \<Rightarrow> tmp \<Rightarrow> allocator \<Rightarrow> allocator" where
  "addEdge a b s =
     (if a = b then s
      else if InterferenceEdge a b \<in> interferenceEdges s then s
      else appendAdjacent b a (appendAdjacent a b
             (s\<lparr> interferenceEdges := insert (InterferenceEdge a b) (interferenceEdges s) \<rparr>)))"

text \<open>\<^verbatim>\<open>liveTmp.isGP() == (type == Arg::GP)\<close>\<close>

definition inBank :: "bank \<Rightarrow> tmp \<Rightarrow> bool" where
  "inBank type t = (isGP t = (type = GP))"

text \<open>\<^verbatim>\<open>addEdges\<close>: every \<open>Def\<close> of the bank interferes with everything live of the bank.\<close>

definition addEdgesLive :: "bank \<Rightarrow> tmp \<Rightarrow> tmp \<Rightarrow> allocator \<Rightarrow> allocator" where
  "addEdgesLive type a liveTmp s = (if inBank type liveTmp then addEdge a liveTmp s else s)"

fun addEdgesArg :: "bank \<Rightarrow> tmp list \<Rightarrow> tmp \<times> role \<times> bank \<Rightarrow> allocator \<Rightarrow> allocator" where
  "addEdgesArg type live (a, role, argType) s =
     (if argType = type \<and> isDef role then fold (addEdgesLive type a) live s else s)"

definition addEdges :: "bank \<Rightarrow> inst \<Rightarrow> tmp list \<Rightarrow> allocator \<Rightarrow> allocator" where
  "addEdges type i live s = fold (addEdgesArg type live) (forEachTmp i) s"

text \<open>The first loop of \<^verbatim>\<open>build\<close>: the outer callback and, inside it, the inner one.
  The inner callback leaves its third parameter unnamed, so its test
  \<^verbatim>\<open>argType != type\<close> reads the \<open>argType\<close> of the outer callback.\<close>

fun buildDefsInner :: "bank \<Rightarrow> tmp \<Rightarrow> bank \<Rightarrow> tmp \<times> role \<times> bank \<Rightarrow> allocator \<Rightarrow> allocator" where
  "buildDefsInner type a argType (otherArg, role, _) s =
     (if argType \<noteq> type then s
      else if isDef role then addEdge a otherArg s else s)"

fun buildDefsOuter :: "bank \<Rightarrow> inst \<Rightarrow> tmp \<times> role \<times> bank \<Rightarrow> allocator \<Rightarrow> allocator" where
  "buildDefsOuter type i (a, role, argType) s =
     (if argType \<noteq> type then s
      else if isDef role then fold (buildDefsInner type a argType) (forEachTmp i) s else s)"

definition buildDefs :: "bank \<Rightarrow> inst \<Rightarrow> allocator \<Rightarrow> allocator" where
  "buildDefs type i s = fold (buildDefsOuter type i) (forEachTmp i) s"

text \<open>The second loop of \<^verbatim>\<open>build\<close> for a coalescable move: the move joins the move
  list of each of its arguments and \<^verbatim>\<open>m_worklistMoves\<close>.\<close>

fun addToMoveList :: "instPtr \<Rightarrow> slot \<Rightarrow> allocator \<Rightarrow> allocator" where
  "addToMoveList p (Tmp t, _, _) s = s\<lparr> moveList := (moveList s)(t := hashAdd p (moveList s t)) \<rparr>"
| "addToMoveList p _ s = s"

definition addToMoveLists :: "instPtr \<Rightarrow> allocator \<Rightarrow> allocator" where
  "addToMoveLists p s = fold (addToMoveList p) (args (deref p)) s"

text \<open>\<^verbatim>\<open>defTmp\<close> and \<^verbatim>\<open>useTmp\<close> of the move: the last temporary in a \<open>Def\<close> role, and
  the last one in any other role.\<close>

fun moveDefUseArg :: "tmp \<times> role \<times> bank \<Rightarrow> tmp option \<times> tmp option \<Rightarrow> tmp option \<times> tmp option" where
  "moveDefUseArg (t, role, _) (d, u) = (if isDef role then (Some t, u) else (d, Some t))"

definition moveDefUse :: "inst \<Rightarrow> tmp option \<times> tmp option" where
  "moveDefUse i = fold moveDefUseArg (forEachTmp i) (None, None)"

definition addMoveEdge :: "bank \<Rightarrow> tmp \<Rightarrow> tmp \<Rightarrow> tmp \<Rightarrow> allocator \<Rightarrow> allocator" where
  "addMoveEdge type defTmp useTmp liveTmp s =
     (if liveTmp \<noteq> useTmp \<and> inBank type liveTmp then addEdge defTmp liveTmp s else s)"

definition addMoveEdges :: "bank \<Rightarrow> tmp \<Rightarrow> tmp \<Rightarrow> tmp list \<Rightarrow> allocator \<Rightarrow> allocator" where
  "addMoveEdges type defTmp useTmp live s = fold (addMoveEdge type defTmp useTmp) live s"

definition addToWorklistMoves :: "instPtr \<Rightarrow> allocator \<Rightarrow> allocator" where
  "addToWorklistMoves p s = s\<lparr> worklistMoves := hashAdd p (worklistMoves s) \<rparr>"

fun addDefUseEdges :: "bank \<Rightarrow> tmp option \<times> tmp option \<Rightarrow> tmp list \<Rightarrow> allocator \<Rightarrow> allocator" where
  "addDefUseEdges type (Some defTmp, Some useTmp) live s = addMoveEdges type defTmp useTmp live s"
| "addDefUseEdges type _ live s = s"

definition build :: "bank \<Rightarrow> instPtr \<Rightarrow> tmp list \<Rightarrow> allocator \<Rightarrow> allocator" where
  "build type p live s =
     (if mayBeCoalescable type (deref p)
      then addDefUseEdges type (moveDefUse (deref p)) live
             (addToWorklistMoves p (addToMoveLists p (buildDefs type (deref p) s)))
      else addEdges type (deref p) live (buildDefs type (deref p) s))"


section \<open>The work lists\<close>

text \<open>\<^verbatim>\<open>AbsoluteTmpHelper<type>::tmpFromAbsoluteIndex\<close> on the indices past the
  registers.\<close>

definition tmpForIndex :: "bank \<Rightarrow> nat \<Rightarrow> tmp" where
  "tmpForIndex type i = (case type of GP \<Rightarrow> GPTmp i | FP \<Rightarrow> FPTmp i)"

definition makeWorkListStep :: "tmp \<Rightarrow> allocator \<Rightarrow> allocator" where
  "makeWorkListStep t s =
     (let degree = degrees s t in
      if degree = 0 then s
      else if degree \<ge> numberOfRegisters s
        then s\<lparr> spillWorklist := hashAdd t (spillWorklist s) \<rparr>
      else if moveList s t \<noteq> []
        then s\<lparr> freezeWorklist := hashAdd t (freezeWorklist s) \<rparr>
      else s\<lparr> simplifyWorklist := simplifyWorklist s @ [t] \<rparr>)"

definition makeWorkListAt :: "bank \<Rightarrow> nat \<Rightarrow> allocator \<Rightarrow> allocator" where
  "makeWorkListAt type i s = makeWorkListStep (tmpForIndex type i) s"

definition makeWorkList :: "bank \<Rightarrow> allocator \<Rightarrow> allocator" where
  "makeWorkList type s = fold (makeWorkListAt type) [0..<numTmps s] s"

definition hasBeenSimplified :: "tmp \<Rightarrow> allocator \<Rightarrow> bool" where
  "hasBeenSimplified t s = (t \<in> isOnSelectStack s \<or> coalescedTmps s t \<noteq> None)"

definition unlessSimplified :: "(tmp \<Rightarrow> allocator \<Rightarrow> allocator) \<Rightarrow> tmp \<Rightarrow> allocator \<Rightarrow> allocator" where
  "unlessSimplified f adjacentTmp s = (if \<not> hasBeenSimplified adjacentTmp s then f adjacentTmp s else s)"

definition forEachAdjacent :: "tmp \<Rightarrow> (tmp \<Rightarrow> allocator \<Rightarrow> allocator) \<Rightarrow> allocator \<Rightarrow> allocator" where
  "forEachAdjacent t f s = fold (unlessSimplified f) (adjacencyList s t) s"

definition isLiveMove :: "allocator \<Rightarrow> instPtr \<Rightarrow> bool" where
  "isLiveMove s i = (i \<in> activeMoves s \<or> i \<in> set (worklistMoves s))"

definition isMoveRelated :: "tmp \<Rightarrow> allocator \<Rightarrow> bool" where
  "isMoveRelated t s = list_ex (isLiveMove s) (moveList s t)"

definition enableMove :: "instPtr \<Rightarrow> allocator \<Rightarrow> allocator" where
  "enableMove i s =
     (if i \<in> activeMoves s
      then s\<lparr> activeMoves := activeMoves s - {i},
              worklistMoves := hashAdd i (worklistMoves s) \<rparr>
      else s)"

definition enableMovesOnValue :: "tmp \<Rightarrow> allocator \<Rightarrow> allocator" where
  "enableMovesOnValue t s = fold enableMove (moveList s t) s"

definition enableMovesOnValueAndAdjacents :: "tmp \<Rightarrow> allocator \<Rightarrow> allocator" where
  "enableMovesOnValueAndAdjacents t s =
     forEachAdjacent t enableMovesOnValue (enableMovesOnValue t s)"

definition decrementDegree :: "tmp \<Rightarrow> allocator \<Rightarrow> allocator" where
  "decrementDegree t s =
     (let oldDegree = degrees s t;
          s1 = s\<lparr> degrees := (degrees s)(t := oldDegree - 1) \<rparr>
      in if oldDegree = numberOfRegisters s then
           (let s2 = enableMovesOnValueAndAdjacents t s1;
                s3 = s2\<lparr> spillWorklist := hashRemove t (spillWorklist s2) \<rparr>
            in if isMoveRelated t s3
               then s3\<lparr> freezeWorklist := hashAdd t (freezeWorklist s3) \<rparr>
               else s3\<lparr> simplifyWorklist := simplifyWorklist s3 @ [t] \<rparr>)
         else s1)"

text \<open>The steps of the main loop return \<open>None\<close> when the source does not return: a loop
  that does not end, or a container read that the source's assertions exclude
  (\<^verbatim>\<open>takeLast\<close> of an empty vector).\<close>

definition simplify :: "allocator \<Rightarrow> allocator option" where
  "simplify s =
     (case simplifyWorklist s of
        [] \<Rightarrow> None
      | _ # _ \<Rightarrow>
          (let lastTmp = last (simplifyWorklist s);
               s1 = s\<lparr> simplifyWorklist := butlast (simplifyWorklist s),
                       selectStack := selectStack s @ [lastTmp],
                       isOnSelectStack := insert lastTmp (isOnSelectStack s) \<rparr>
           in Some (forEachAdjacent lastTmp decrementDegree s1)))"

section \<open>Coalescing\<close>

partial_function (option) getAlias :: "(tmp \<Rightarrow> tmp option) \<Rightarrow> tmp \<Rightarrow> tmp option" where
  "getAlias alias t = (case alias t of None \<Rightarrow> Some t | Some nextAlias \<Rightarrow> getAlias alias nextAlias)"

declare getAlias.simps [code]

text \<open>The test of the loop of \<^verbatim>\<open>precoloredCoalescingHeuristic\<close> that makes it return
  false.\<close>

definition riskyAdjacent :: "tmp \<Rightarrow> allocator \<Rightarrow> tmp \<Rightarrow> bool" where
  "riskyAdjacent u s adjacentTmp =
     (\<not> isReg adjacentTmp
      \<and> \<not> hasBeenSimplified adjacentTmp s
      \<and> degrees s adjacentTmp \<ge> numberOfRegisters s
      \<and> InterferenceEdge u adjacentTmp \<notin> interferenceEdges s)"

definition precoloredCoalescingHeuristic :: "tmp \<Rightarrow> tmp \<Rightarrow> allocator \<Rightarrow> bool" where
  "precoloredCoalescingHeuristic u v s = (\<not> list_ex (riskyAdjacent u s) (adjacencyList s v))"

text \<open>One loop of \<^verbatim>\<open>conservativeHeuristic\<close> over an adjacency list, with the set
  \<^verbatim>\<open>highOrderAdjacents\<close> as a list without duplicates; \<open>None\<close> is the early
  \<^verbatim>\<open>return false\<close>.\<close>

fun highOrderScan :: "allocator \<Rightarrow> tmp list \<Rightarrow> tmp list \<Rightarrow> tmp list option" where
  "highOrderScan s [] high = Some high"
| "highOrderScan s (adjacentTmp # rest) high =
     (if \<not> hasBeenSimplified adjacentTmp s \<and> degrees s adjacentTmp \<ge> numberOfRegisters s
      then (if adjacentTmp \<notin> set high \<and> length high + 1 \<ge> unat (numberOfRegisters s)
            then None
            else highOrderScan s rest (hashAdd adjacentTmp high))
      else highOrderScan s rest high)"

definition conservativeHeuristic :: "tmp \<Rightarrow> tmp \<Rightarrow> allocator \<Rightarrow> bool" where
  "conservativeHeuristic u v s =
     (if length (adjacencyList s u) + length (adjacencyList s v) < unat (numberOfRegisters s)
      then True
      else (case highOrderScan s (adjacencyList s u) [] of
              None \<Rightarrow> False
            | Some high \<Rightarrow>
                (case highOrderScan s (adjacencyList s v) high of
                   None \<Rightarrow> False
                 | Some _ \<Rightarrow> True)))"

definition canBeSafelyCoalesced :: "tmp \<Rightarrow> tmp \<Rightarrow> allocator \<Rightarrow> bool" where
  "canBeSafelyCoalesced u v s =
     (if isReg u then precoloredCoalescingHeuristic u v s else conservativeHeuristic u v s)"

definition addWorkList :: "tmp \<Rightarrow> allocator \<Rightarrow> allocator" where
  "addWorkList t s =
     (if \<not> isReg t \<and> degrees s t < numberOfRegisters s \<and> \<not> isMoveRelated t s
      then s\<lparr> freezeWorklist := hashRemove t (freezeWorklist s),
              simplifyWorklist := simplifyWorklist s @ [t] \<rparr>
      else s)"

definition combineAdjacent :: "tmp \<Rightarrow> tmp \<Rightarrow> allocator \<Rightarrow> allocator" where
  "combineAdjacent u adjacentTmp s = decrementDegree adjacentTmp (addEdge adjacentTmp u s)"

definition combine :: "tmp \<Rightarrow> tmp \<Rightarrow> allocator \<Rightarrow> allocator" where
  "combine u v s =
     (let s1 = (if v \<in> set (freezeWorklist s)
                then s\<lparr> freezeWorklist := hashRemove v (freezeWorklist s) \<rparr>
                else s\<lparr> spillWorklist := hashRemove v (spillWorklist s) \<rparr>);
          s2 = s1\<lparr> coalescedTmps := (coalescedTmps s1)(v \<mapsto> u) \<rparr>;
          s3 = s2\<lparr> moveList := (moveList s2)(u := fold hashAdd (moveList s2 v) (moveList s2 u)) \<rparr>;
          s4 = forEachAdjacent v (combineAdjacent u) s3
      in if degrees s4 u \<ge> numberOfRegisters s4 \<and> u \<in> set (freezeWorklist s4)
         then s4\<lparr> freezeWorklist := hashRemove u (freezeWorklist s4),
                  spillWorklist := hashAdd u (spillWorklist s4) \<rparr>
         else s4)"

text \<open>The operands of \<^verbatim>\<open>coalesce\<close>: both arguments of the move after \<^verbatim>\<open>getAlias\<close>,
  swapped when the second one is a register.\<close>

definition coalesceOperands :: "instPtr \<Rightarrow> allocator \<Rightarrow> (tmp \<times> tmp) option" where
  "coalesceOperands moveInst s =
     (case (arg0 moveInst, arg1 moveInst) of
        (Some a0, Some a1) \<Rightarrow>
          (case getAlias (coalescedTmps s) a0 of
             None \<Rightarrow> None
           | Some u \<Rightarrow>
               (case getAlias (coalescedTmps s) a1 of
                  None \<Rightarrow> None
                | Some v \<Rightarrow> Some (if isReg v then (v, u) else (u, v))))
      | _ \<Rightarrow> None)"

text \<open>The four branches of \<^verbatim>\<open>coalesce\<close>, named as its trace messages name them.\<close>

datatype coalesceBranch = Coalesced | Constrained | SafeCoalescing | FailedCoalescing

definition coalesceCase :: "tmp \<Rightarrow> tmp \<Rightarrow> allocator \<Rightarrow> coalesceBranch" where
  "coalesceCase u v s =
     (if u = v then Coalesced
      else if isReg v \<or> InterferenceEdge u v \<in> interferenceEdges s then Constrained
      else if canBeSafelyCoalesced u v s then SafeCoalescing
      else FailedCoalescing)"

definition coalesce :: "allocator \<Rightarrow> allocator option" where
  "coalesce s =
     (case worklistMoves s of
        [] \<Rightarrow> None
      | _ # _ \<Rightarrow>
          (let moveInst = last (worklistMoves s);
               s1 = s\<lparr> worklistMoves := butlast (worklistMoves s) \<rparr>
           in case coalesceOperands moveInst s1 of
                None \<Rightarrow> None
              | Some (u, v) \<Rightarrow>
                  (case coalesceCase u v s1 of
                     Coalesced \<Rightarrow> Some (addWorkList u s1)
                   | Constrained \<Rightarrow> Some (addWorkList v (addWorkList u s1))
                   | SafeCoalescing \<Rightarrow> Some (addWorkList u (combine u v s1))
                   | FailedCoalescing \<Rightarrow>
                       Some (s1\<lparr> activeMoves := insert moveInst (activeMoves s1) \<rparr>))))"

section \<open>Freezing and spill selection\<close>

definition freezeMove :: "tmp \<Rightarrow> instPtr \<Rightarrow> allocator \<Rightarrow> allocator" where
  "freezeMove t i s =
     (let s1 = (if i \<in> activeMoves s
                then s\<lparr> activeMoves := activeMoves s - {i} \<rparr>
                else s\<lparr> worklistMoves := hashRemove i (worklistMoves s) \<rparr>)
      in case (arg0 i, arg1 i) of
           (Some a0, Some a1) \<Rightarrow>
             (let otherTmp = (if a0 \<noteq> t then a0 else a1) in
              if degrees s1 otherTmp < numberOfRegisters s1 \<and> \<not> isMoveRelated otherTmp s1
              then s1\<lparr> freezeWorklist := hashRemove otherTmp (freezeWorklist s1),
                       simplifyWorklist := simplifyWorklist s1 @ [otherTmp] \<rparr>
              else s1)
         | _ \<Rightarrow> s1)"

definition freezeLiveMove :: "tmp \<Rightarrow> instPtr \<Rightarrow> allocator \<Rightarrow> allocator" where
  "freezeLiveMove t i s = (if isLiveMove s i then freezeMove t i s else s)"

definition freezeMoves :: "tmp \<Rightarrow> allocator \<Rightarrow> allocator" where
  "freezeMoves t s = fold (freezeLiveMove t) (moveList s t) s"

definition freeze :: "allocator \<Rightarrow> allocator option" where
  "freeze s =
     (case freezeWorklist s of
        [] \<Rightarrow> None
      | victim # rest \<Rightarrow>
          Some (freezeMoves victim
                  (s\<lparr> freezeWorklist := rest,
                      simplifyWorklist := simplifyWorklist s @ [victim] \<rparr>)))"

text \<open>The loop of \<^verbatim>\<open>selectSpill\<close> over the rest of the spill work list, carrying
  \<^verbatim>\<open>victimIterator\<close> and \<^verbatim>\<open>maxDegree\<close>.\<close>

fun spillScan :: "(tmp \<Rightarrow> 32 word) \<Rightarrow> tmp list \<Rightarrow> tmp \<Rightarrow> 32 word \<Rightarrow> tmp" where
  "spillScan deg [] victim maxDegree = victim"
| "spillScan deg (t # ts) victim maxDegree =
     (if deg t > maxDegree then spillScan deg ts t (deg t)
      else spillScan deg ts victim maxDegree)"

definition selectSpill :: "allocator \<Rightarrow> allocator option" where
  "selectSpill s =
     (case spillWorklist s of
        [] \<Rightarrow> None
      | first # rest \<Rightarrow>
          (let victimTmp = spillScan (degrees s) rest first (degrees s first) in
           Some (freezeMoves victimTmp
                   (s\<lparr> spillWorklist := hashRemove victimTmp (spillWorklist s),
                       simplifyWorklist := simplifyWorklist s @ [victimTmp] \<rparr>))))"


section \<open>The main loop and the coloring\<close>

definition mainStep :: "allocator \<Rightarrow> allocator option" where
  "mainStep s =
     (if simplifyWorklist s \<noteq> [] then simplify s
      else if worklistMoves s \<noteq> [] then coalesce s
      else if freezeWorklist s \<noteq> [] then freeze s
      else if spillWorklist s \<noteq> [] then selectSpill s
      else Some s)"

definition worklistsPending :: "allocator \<Rightarrow> bool" where
  "worklistsPending s =
     (simplifyWorklist s \<noteq> [] \<or> worklistMoves s \<noteq> [] \<or> freezeWorklist s \<noteq> []
      \<or> spillWorklist s \<noteq> [])"

partial_function (option) allocateLoop :: "allocator \<Rightarrow> allocator option" where
  "allocateLoop s =
     (case mainStep s of
        None \<Rightarrow> None
      | Some s' \<Rightarrow> if worklistsPending s' then allocateLoop s' else Some s')"

declare allocateLoop.simps [code]

text \<open>The registers forbidden for a temporary, from its adjacency list
  (\<^verbatim>\<open>coloredRegisters\<close>).\<close>

fun coloredRegisters ::
  "(tmp \<Rightarrow> tmp option) \<Rightarrow> (tmp \<Rightarrow> reg option) \<Rightarrow> tmp list \<Rightarrow> reg set \<Rightarrow> reg set option" where
  "coloredRegisters alias colored [] found = Some found"
| "coloredRegisters alias colored (adjacentTmp # rest) found =
     (case getAlias alias adjacentTmp of
        None \<Rightarrow> None
      | Some (RegTmp r) \<Rightarrow> coloredRegisters alias colored rest (insert r found)
      | Some aliasTmp \<Rightarrow>
          (case colored aliasTmp of
             Some r \<Rightarrow> coloredRegisters alias colored rest (insert r found)
           | None \<Rightarrow> coloredRegisters alias colored rest found))"

text \<open>The loop of \<^verbatim>\<open>assignColors\<close> over the select stack, given in the order in which
  \<^verbatim>\<open>takeLast\<close> pops it.\<close>

fun colorStack :: "reg list \<Rightarrow> tmp list \<Rightarrow> allocator \<Rightarrow> allocator option" where
  "colorStack regs [] s = Some s"
| "colorStack regs (t # ts) s =
     (case coloredRegisters (coalescedTmps s) (coloredTmp s) (adjacencyList s t) {} of
        None \<Rightarrow> None
      | Some forbidden \<Rightarrow>
          (case find (\<lambda>r. r \<notin> forbidden) regs of
             Some r \<Rightarrow> colorStack regs ts (s\<lparr> coloredTmp := (coloredTmp s)(t \<mapsto> r) \<rparr>)
           | None \<Rightarrow> colorStack regs ts (s\<lparr> spilledTmp := hashAdd t (spilledTmp s) \<rparr>)))"

definition assignColors :: "reg list \<Rightarrow> allocator \<Rightarrow> allocator option" where
  "assignColors regs s =
     (let s1 = s\<lparr> interferenceEdges := {},
                  degrees := (\<lambda>_. 0),
                  moveList := (\<lambda>_. []),
                  worklistMoves := [],
                  activeMoves := {},
                  simplifyWorklist := [],
                  spillWorklist := [],
                  freezeWorklist := [] \<rparr>
      in case colorStack regs (rev (selectStack s1)) s1 of
           None \<Rightarrow> None
         | Some s2 \<Rightarrow>
             (let s3 = s2\<lparr> selectStack := [] \<rparr>
              in Some (if spilledTmp s3 \<noteq> [] then s3\<lparr> coloredTmp := (\<lambda>_. None) \<rparr> else s3)))"

definition allocate :: "bank \<Rightarrow> reg list \<Rightarrow> allocator \<Rightarrow> allocator option" where
  "allocate type regs s =
     (case allocateLoop (makeWorkList type s) of
        None \<Rightarrow> None
      | Some s1 \<Rightarrow> assignColors regs s1)"

section \<open>The program and its rewriting\<close>

text \<open>Modelled from the spec: \<^verbatim>\<open>Code\<close> is a list of basic blocks with the counts of
  temporaries per bank and of stack slots.\<close>

record code =
  blocks :: "inst list list"
  numGPTmps :: nat
  numFPTmps :: nat
  numStackSlots :: nat

definition codeNumTmps :: "code \<Rightarrow> bank \<Rightarrow> nat" where
  "codeNumTmps c type = (case type of GP \<Rightarrow> numGPTmps c | FP \<Rightarrow> numFPTmps c)"

text \<open>\<^verbatim>\<open>allocatedReg\<close>: the color, or the first register of the bank for a temporary that
  has none.\<close>

definition allocatedReg :: "reg list \<Rightarrow> allocator \<Rightarrow> tmp \<Rightarrow> reg option" where
  "allocatedReg regs a t =
     (case coloredTmp a t of
        Some r \<Rightarrow> Some r
      | None \<Rightarrow> (case regs of [] \<Rightarrow> None | r # _ \<Rightarrow> Some r))"

definition assignSlot :: "bank \<Rightarrow> reg list \<Rightarrow> allocator \<Rightarrow> slot \<Rightarrow> slot option" where
  "assignSlot type regs a sl =
     (case sl of
        (Tmp t, role, argType) \<Rightarrow>
          (if isReg t \<or> isGP t = (type \<noteq> GP) then Some sl
           else (case getAlias (coalescedTmps a) t of
                   None \<Rightarrow> None
                 | Some aliasTmp \<Rightarrow>
                     (if isReg aliasTmp then Some (Tmp aliasTmp, role, argType)
                      else (case allocatedReg regs a aliasTmp of
                              None \<Rightarrow> None
                            | Some r \<Rightarrow> Some (Tmp (RegTmp r), role, argType)))))
      | _ \<Rightarrow> Some sl)"

definition assignInst :: "bank \<Rightarrow> reg list \<Rightarrow> allocator \<Rightarrow> inst \<Rightarrow> inst option" where
  "assignInst type regs a i =
     (case those (map (assignSlot type regs a) (args i)) of
        None \<Rightarrow> None
      | Some sls \<Rightarrow> Some (i\<lparr> args := sls \<rparr>))"

definition isUselessMoveInst :: "bank \<Rightarrow> inst \<Rightarrow> bool" where
  "isUselessMoveInst type i =
     (mayBeCoalescable type i \<and>
      (case args i of (a0, _) # (a1, _) # _ \<Rightarrow> argTmp a0 = argTmp a1 | _ \<Rightarrow> False))"

definition assignBlock :: "bank \<Rightarrow> reg list \<Rightarrow> allocator \<Rightarrow> inst list \<Rightarrow> inst list option" where
  "assignBlock type regs a b =
     (case those (map (assignInst type regs a) b) of
        None \<Rightarrow> None
      | Some b' \<Rightarrow> Some (filter (\<lambda>i. \<not> isUselessMoveInst type i) b'))"

definition assignRegisterToTmpInProgram :: "bank \<Rightarrow> reg list \<Rightarrow> code \<Rightarrow> allocator \<Rightarrow> code option" where
  "assignRegisterToTmpInProgram type regs c a =
     (case those (map (assignBlock type regs a) (blocks c)) of
        None \<Rightarrow> None
      | Some bs \<Rightarrow> Some (c\<lparr> blocks := bs \<rparr>))"

subsection \<open>Spill insertion\<close>

text \<open>The first loop over the arguments of an instruction: a spilled temporary is
  replaced by its stack slot where \<^verbatim>\<open>inst.admitsStack(i)\<close> holds.  \<open>admits\<close> is
  \<^verbatim>\<open>Inst::admitsStack\<close>, read on the instruction as rewritten so far.\<close>

definition spillArg :: "(inst \<Rightarrow> nat \<Rightarrow> bool) \<Rightarrow> bank \<Rightarrow> (tmp \<Rightarrow> nat option) \<Rightarrow> nat \<Rightarrow> inst \<Rightarrow> inst" where
  "spillArg admits type stackSlots i ins =
     (case args ins ! i of
        (Tmp t, role, argType) \<Rightarrow>
          (if tmpBank t = type \<and> \<not> isReg t then
             (case stackSlots t of
                None \<Rightarrow> ins
              | Some slot \<Rightarrow>
                  if admits ins i then ins\<lparr> args := (args ins)[i := (Stack slot, role, argType)] \<rparr>
                  else ins)
           else ins)
      | _ \<Rightarrow> ins)"

definition spillArgs :: "(inst \<Rightarrow> nat \<Rightarrow> bool) \<Rightarrow> bank \<Rightarrow> (tmp \<Rightarrow> nat option) \<Rightarrow> inst \<Rightarrow> inst" where
  "spillArgs admits type stackSlots ins =
     fold (spillArg admits type stackSlots) [0..<length (args ins)] ins"

text \<open>The second loop, over the temporaries that are left: the rewritten slots, the
  fills to insert before the instruction, the spills to insert after it, and the
  number of temporaries of the bank after \<^verbatim>\<open>code.newTmp(type)\<close>.\<close>

definition fillInst :: "bank \<Rightarrow> nat \<Rightarrow> tmp \<Rightarrow> inst" where
  "fillInst type slot newTmp =
     \<lparr> opcode = moveOpcode type, args = [(Stack slot, Use, type), (Tmp newTmp, Def, type)] \<rparr>"

definition spillInst :: "bank \<Rightarrow> tmp \<Rightarrow> nat \<Rightarrow> inst" where
  "spillInst type t slot =
     \<lparr> opcode = moveOpcode type, args = [(Tmp t, Use, type), (Stack slot, Def, type)] \<rparr>"

fun spillTmps ::
  "bank \<Rightarrow> (tmp \<Rightarrow> nat option) \<Rightarrow> slot list \<Rightarrow> nat \<Rightarrow> slot list \<times> inst list \<times> inst list \<times> nat" where
  "spillTmps type stackSlots [] n = ([], [], [], n)"
| "spillTmps type stackSlots ((Tmp t, role, argType) # rest) n =
     (if isReg t \<or> argType \<noteq> type then
        (case spillTmps type stackSlots rest n of
           (sls, fills, spills, n') \<Rightarrow> ((Tmp t, role, argType) # sls, fills, spills, n'))
      else
        (case stackSlots t of
           None \<Rightarrow>
             (case spillTmps type stackSlots rest n of
                (sls, fills, spills, n') \<Rightarrow> ((Tmp t, role, argType) # sls, fills, spills, n'))
         | Some slot \<Rightarrow>
             (let newTmp = tmpForIndex type n;
                  t' = (if isUse role then newTmp else t);
                  n1 = (if isUse role then n + 1 else n);
                  fill = (if isUse role then [fillInst type slot newTmp] else []);
                  spill = (if isDef role then [spillInst type t' slot] else [])
              in case spillTmps type stackSlots rest n1 of
                   (sls, fills, spills, n') \<Rightarrow>
                     ((Tmp t', role, argType) # sls, fill @ fills, spill @ spills, n'))))"
| "spillTmps type stackSlots (sl # rest) n =
     (case spillTmps type stackSlots rest n of
        (sls, fills, spills, n') \<Rightarrow> (sl # sls, fills, spills, n'))"

text \<open>One instruction: the instructions that stand in its place once the insertion set
  has been executed (fills, the instruction, spills).\<close>

definition spillInstruction ::
  "(inst \<Rightarrow> nat \<Rightarrow> bool) \<Rightarrow> bank \<Rightarrow> (tmp \<Rightarrow> nat option) \<Rightarrow> inst \<Rightarrow> nat \<Rightarrow> inst list \<times> nat" where
  "spillInstruction admits type stackSlots ins n =
     (let ins1 = spillArgs admits type stackSlots ins in
      case spillTmps type stackSlots (args ins1) n of
        (sls, fills, spills, n') \<Rightarrow> (fills @ [ins1\<lparr> args := sls \<rparr>] @ spills, n'))"

fun spillBlock ::
  "(inst \<Rightarrow> nat \<Rightarrow> bool) \<Rightarrow> bank \<Rightarrow> (tmp \<Rightarrow> nat option) \<Rightarrow> inst list \<Rightarrow> nat \<Rightarrow> inst list \<times> nat" where
  "spillBlock admits type stackSlots [] n = ([], n)"
| "spillBlock admits type stackSlots (ins # rest) n =
     (case spillInstruction admits type stackSlots ins n of
        (out, n1) \<Rightarrow>
          (case spillBlock admits type stackSlots rest n1 of
             (outs, n2) \<Rightarrow> (out @ outs, n2)))"

fun spillBlocks ::
  "(inst \<Rightarrow> nat \<Rightarrow> bool) \<Rightarrow> bank \<Rightarrow> (tmp \<Rightarrow> nat option) \<Rightarrow> inst list list \<Rightarrow> nat \<Rightarrow> inst list list \<times> nat" where
  "spillBlocks admits type stackSlots [] n = ([], n)"
| "spillBlocks admits type stackSlots (b # bs) n =
     (case spillBlock admits type stackSlots b n of
        (b', n1) \<Rightarrow>
          (case spillBlocks admits type stackSlots bs n1 of
             (bs', n2) \<Rightarrow> (b' # bs', n2)))"

definition setNumTmps :: "bank \<Rightarrow> nat \<Rightarrow> code \<Rightarrow> code" where
  "setNumTmps type n c = (case type of GP \<Rightarrow> c\<lparr> numGPTmps := n \<rparr> | FP \<Rightarrow> c\<lparr> numFPTmps := n \<rparr>)"

definition addSpillAndFillToProgram ::
  "(inst \<Rightarrow> nat \<Rightarrow> bool) \<Rightarrow> bank \<Rightarrow> code \<Rightarrow> tmp list \<Rightarrow> code" where
  "addSpillAndFillToProgram admits type c spilled =
     (let stackSlots = map_of (zip spilled [numStackSlots c ..< numStackSlots c + length spilled]);
          c1 = c\<lparr> numStackSlots := numStackSlots c + length spilled \<rparr>
      in case spillBlocks admits type stackSlots (blocks c1) (codeNumTmps c1 type) of
           (bs, n) \<Rightarrow> setNumTmps type n (c1\<lparr> blocks := bs \<rparr>))"


section \<open>The bank driver\<close>

text \<open>What the pass takes from its collaborators: the registers of each bank in
  priority order, \<^verbatim>\<open>Inst::admitsStack\<close>, and the liveness analysis, which gives for a
  program the temporaries live after the instruction at (block, index).\<close>

record collaborators =
  regsInPriorityOrder :: "bank \<Rightarrow> reg list"
  admitsStack :: "inst \<Rightarrow> nat \<Rightarrow> bool"
  liveness :: "code \<Rightarrow> nat \<Rightarrow> nat \<Rightarrow> tmp list"

text \<open>The walk over the blocks that feeds \<^verbatim>\<open>build\<close>; within a block the index runs
  from the last instruction down to the first (\<^verbatim>\<open>instIndex--\<close>).\<close>

fun downFrom :: "nat \<Rightarrow> nat list" where
  "downFrom 0 = []"
| "downFrom (Suc n) = n # downFrom n"

definition buildAt :: "bank \<Rightarrow> (nat \<Rightarrow> nat \<Rightarrow> tmp list) \<Rightarrow> code \<Rightarrow> nat \<Rightarrow> nat \<Rightarrow> allocator \<Rightarrow> allocator" where
  "buildAt type live c bi instIndex s =
     build type ((bi, instIndex), blocks c ! bi ! instIndex) (live bi instIndex) s"

definition buildBlock :: "bank \<Rightarrow> (nat \<Rightarrow> nat \<Rightarrow> tmp list) \<Rightarrow> code \<Rightarrow> nat \<Rightarrow> allocator \<Rightarrow> allocator" where
  "buildBlock type live c bi s = fold (buildAt type live c bi) (downFrom (length (blocks c ! bi))) s"

definition buildCode :: "bank \<Rightarrow> (nat \<Rightarrow> nat \<Rightarrow> tmp list) \<Rightarrow> code \<Rightarrow> allocator \<Rightarrow> allocator" where
  "buildCode type live c s = fold (buildBlock type live c) [0..<length (blocks c)] s"

definition newAllocator :: "collaborators \<Rightarrow> bank \<Rightarrow> code \<Rightarrow> allocator" where
  "newAllocator env type c = initAllocator (regsInPriorityOrder env type) (codeNumTmps c type)"

text \<open>The trace of a run: every construction of \<^verbatim>\<open>Liveness<Tmp>\<close>, and every call of
  \<^verbatim>\<open>allocate()\<close> with the bank and whether its spill set came out empty.\<close>

datatype event = LivenessComputed | Allocated bank bool

text \<open>What follows \<^verbatim>\<open>allocate()\<close> in both drivers: the registers are written into the
  program when nothing spilled, spill code is inserted otherwise.\<close>

definition finishRound :: "collaborators \<Rightarrow> bank \<Rightarrow> code \<Rightarrow> allocator \<Rightarrow> code option" where
  "finishRound env type c a =
     (if spilledTmp a = [] then assignRegisterToTmpInProgram type (regsInPriorityOrder env type) c a
      else Some (addSpillAndFillToProgram (admitsStack env) type c (spilledTmp a)))"

partial_function (option) iteratedRegisterCoalescingOnType ::
  "collaborators \<Rightarrow> bank \<Rightarrow> code \<Rightarrow> event list \<Rightarrow> (code \<times> event list) option" where
  "iteratedRegisterCoalescingOnType env type c tr =
     (case allocate type (regsInPriorityOrder env type)
             (buildCode type (liveness env c) c (newAllocator env type c)) of
        None \<Rightarrow> None
      | Some a \<Rightarrow>
          (case finishRound env type c a of
             None \<Rightarrow> None
           | Some c' \<Rightarrow>
               if spilledTmp a = [] then Some (c', tr @ [LivenessComputed, Allocated type True])
               else iteratedRegisterCoalescingOnType env type c'
                      (tr @ [LivenessComputed, Allocated type False])))"

declare iteratedRegisterCoalescingOnType.simps [code]

text \<open>\<^verbatim>\<open>build\<close> keeps the address of every coalescable move (\<^verbatim>\<open>&inst\<close>, an element of the
  vector of instructions of its block), and \<^verbatim>\<open>allocate()\<close> reads the arguments of the move
  through that address, in \<^verbatim>\<open>coalesce\<close> and in \<^verbatim>\<open>freezeMoves\<close>.  When the program has
  been rewritten between the two, from \<open>c\<close> to \<open>c'\<close>, the address is that of position
  \<open>instIndex\<close> of the block as it is in \<open>c'\<close>: \<^verbatim>\<open>removeAllMatching\<close> has moved the
  instructions behind a removed one towards the front, and \<^verbatim>\<open>insertionSet.execute\<close> has
  grown the vector, whose elements may have moved to new storage, and has moved the
  instructions behind an inserted one towards the back.  The address still gives the
  move that was stored when the block has not grown and the position holds that
  instruction.\<close>

definition pointsAtItsInst :: "code \<Rightarrow> code \<Rightarrow> instPtr \<Rightarrow> bool" where
  "pointsAtItsInst c c' p =
     (case fst p of
        (bi, instIndex) \<Rightarrow>
          bi < length (blocks c) \<and> bi < length (blocks c')
          \<and> length (blocks c' ! bi) \<le> length (blocks c ! bi)
          \<and> instIndex < length (blocks c' ! bi)
          \<and> blocks c' ! bi ! instIndex = deref p)"

text \<open>\<^verbatim>\<open>allocate()\<close> of an allocator that was built on the program \<open>c\<close>, called when the
  program has become \<open>c'\<close>.  The loop of \<^verbatim>\<open>allocate()\<close> ends when \<^verbatim>\<open>m_worklistMoves\<close> is
  empty, and only \<^verbatim>\<open>coalesce\<close> takes a move from it, reading it: every address that
  \<^verbatim>\<open>build\<close> stored is read.  The read of an address that no longer gives its move is a
  failed assertion (\<^verbatim>\<open>moveInst->args.size() == 2\<close>, \<^verbatim>\<open>Arg::tmp()\<close>), a read outside the
  vector, or the read of an instruction that is not the move; the call then has no
  result.\<close>

definition allocateOn :: "code \<Rightarrow> code \<Rightarrow> bank \<Rightarrow> reg list \<Rightarrow> allocator \<Rightarrow> allocator option" where
  "allocateOn c c' type regs s =
     (if list_all (pointsAtItsInst c c') (worklistMoves s) then allocate type regs s
      else None)"

text \<open>The first loop of \<^verbatim>\<open>iteratedRegisterCoalescing\<close>; it returns \<^verbatim>\<open>gpIsColored\<close> and
  \<^verbatim>\<open>fpIsColored\<close> with the program.  Both allocators are built from the one liveness
  of the round, on the program as it is when the round starts; \<^verbatim>\<open>fpAllocator.allocate()\<close>
  is called on the program as the GP half of the round has left it.\<close>

partial_function (option) coupledRounds ::
  "collaborators \<Rightarrow> bool \<Rightarrow> bool \<Rightarrow> code \<Rightarrow> event list \<Rightarrow> (bool \<times> bool \<times> code \<times> event list) option" where
  "coupledRounds env gpIsColored fpIsColored c tr =
     (if \<not> gpIsColored \<and> \<not> fpIsColored then
        (case allocate GP (regsInPriorityOrder env GP)
                (buildCode GP (liveness env c) c (newAllocator env GP c)) of
           None \<Rightarrow> None
         | Some gpAllocator \<Rightarrow>
             (case finishRound env GP c gpAllocator of
                None \<Rightarrow> None
              | Some c1 \<Rightarrow>
                  (case allocateOn c c1 FP (regsInPriorityOrder env FP)
                          (buildCode FP (liveness env c) c (newAllocator env FP c)) of
                     None \<Rightarrow> None
                   | Some fpAllocator \<Rightarrow>
                       (case finishRound env FP c1 fpAllocator of
                          None \<Rightarrow> None
                        | Some c2 \<Rightarrow>
                            coupledRounds env (spilledTmp gpAllocator = [])
                              (spilledTmp fpAllocator = []) c2
                              (tr @ [LivenessComputed,
                                     Allocated GP (spilledTmp gpAllocator = []),
                                     Allocated FP (spilledTmp fpAllocator = [])])))))
      else Some (gpIsColored, fpIsColored, c, tr))"

declare coupledRounds.simps [code]

definition iteratedRegisterCoalescing :: "collaborators \<Rightarrow> code \<Rightarrow> (code \<times> event list) option" where
  "iteratedRegisterCoalescing env c =
     (case coupledRounds env False False c [] of
        None \<Rightarrow> None
      | Some (gpIsColored, fpIsColored, c1, tr1) \<Rightarrow>
          (case (if \<not> gpIsColored then iteratedRegisterCoalescingOnType env GP c1 tr1
                 else Some (c1, tr1)) of
             None \<Rightarrow> None
           | Some (c2, tr2) \<Rightarrow>
               if \<not> fpIsColored then iteratedRegisterCoalescingOnType env FP c2 tr2
               else Some (c2, tr2)))"

subsection \<open>A liveness oracle for single exits\<close>

text \<open>Modelled from the spec: the liveness analysis is a collaborator that is not part
  of the sources at hand.  For a block at whose end nothing is live, the temporaries
  live before a sequence of instructions are those it uses before it defines them.\<close>

definition instUses :: "inst \<Rightarrow> tmp list" where
  "instUses i = map fst (filter (\<lambda>(t, role, _). isUse role) (forEachTmp i))"

definition instDefs :: "inst \<Rightarrow> tmp list" where
  "instDefs i = map fst (filter (\<lambda>(t, role, _). isDef role) (forEachTmp i))"

fun liveBefore :: "inst list \<Rightarrow> tmp list" where
  "liveBefore [] = []"
| "liveBefore (i # rest) =
     fold hashAdd (instUses i) (filter (\<lambda>t. t \<notin> set (instDefs i)) (liveBefore rest))"

definition blockLiveness :: "code \<Rightarrow> nat \<Rightarrow> nat \<Rightarrow> tmp list" where
  "blockLiveness c bi instIndex = liveBefore (drop (Suc instIndex) (blocks c ! bi))"


section \<open>B3 MoveConstants\<close>

text \<open>Modelled from the spec: the headers of \<^verbatim>\<open>Value\<close> and \<^verbatim>\<open>ValueKey\<close> are not part of
  the sources at hand.  A key is the triple (opcode, type, bit pattern); a constant
  carries its 64-bit pattern, which for a double is its IEEE 754 encoding.\<close>

datatype b3Opcode = Const32 | Const64 | ConstDouble | Other nat

datatype b3Type = Int32 | Int64 | Double | Void

record valueKey =
  keyOpcode :: b3Opcode
  keyType :: b3Type
  keyValue :: "64 word"

record b3Value =
  valueOpcode :: b3Opcode
  valueType :: b3Type
  valueBits :: "64 word"

definition isConstant :: "b3Value \<Rightarrow> bool" where
  "isConstant v = (valueOpcode v = Const32 \<or> valueOpcode v = Const64 \<or> valueOpcode v = ConstDouble)"

definition hasInt :: "b3Value \<Rightarrow> bool" where
  "hasInt v = (valueOpcode v = Const32 \<or> valueOpcode v = Const64)"

definition representableAsInt32 :: "b3Value \<Rightarrow> bool" where
  "representableAsInt32 v = (- (2 ^ 31) \<le> sint (valueBits v) \<and> sint (valueBits v) < 2 ^ 31)"

definition valueKeyOf :: "b3Value \<Rightarrow> valueKey" where
  "valueKeyOf v = \<lparr> keyOpcode = valueOpcode v, keyType = valueType v, keyValue = valueBits v \<rparr>"

text \<open>\<^verbatim>\<open>doubleZero()\<close> is \<^verbatim>\<open>ValueKey(ConstDouble, Double, 0.0)\<close>; the bit pattern of the
  double \<open>+0.0\<close> is zero.\<close>

definition doubleZero :: valueKey where
  "doubleZero = \<lparr> keyOpcode = ConstDouble, keyType = Double, keyValue = 0 \<rparr>"

definition goesInTable :: "valueKey \<Rightarrow> bool" where
  "goesInTable k = (keyOpcode k = ConstDouble \<and> k \<noteq> doubleZero)"

definition needsMotion :: "b3Value \<Rightarrow> bool" where
  "needsMotion v =
     (if \<not> isConstant v then False
      else if hasInt v \<and> representableAsInt32 v then False
      else True)"

text \<open>The state of the first loop of \<^verbatim>\<open>run\<close>: \<^verbatim>\<open>m_toRemove\<close> and \<^verbatim>\<open>m_constTable\<close>, a
  hash map from keys to slots in which \<^verbatim>\<open>add\<close> keeps the slot of a key that is already
  there.\<close>

record moveConstants =
  toRemove :: "b3Value list"
  constTable :: "(valueKey \<times> nat) list"

definition constTableAdd :: "valueKey \<Rightarrow> nat \<Rightarrow> (valueKey \<times> nat) list \<Rightarrow> (valueKey \<times> nat) list" where
  "constTableAdd k slot table = (if k \<in> fst ` set table then table else table @ [(k, slot)])"

definition collectConstant :: "b3Value \<Rightarrow> moveConstants \<Rightarrow> moveConstants" where
  "collectConstant v m =
     (if \<not> needsMotion v then m
      else (let m1 = m\<lparr> toRemove := toRemove m @ [v] \<rparr>;
                k = valueKeyOf v
            in if goesInTable k
               then m1\<lparr> constTable := constTableAdd k (length (constTable m1)) (constTable m1) \<rparr>
               else m1))"

definition collectConstants :: "b3Value list \<Rightarrow> moveConstants" where
  "collectConstants vs = fold collectConstant vs \<lparr> toRemove = [], constTable = [] \<rparr>"

section \<open>Example states and programs\<close>

text \<open>A spill work list of three temporaries of degrees 2, 3 and 3.\<close>

definition spillExample :: allocator where
  "spillExample =
     (initAllocator [GPR 0, GPR 1] 3)
       \<lparr> degrees := (\<lambda>t. if t = GPTmp 0 then 2 else 3),
         spillWorklist := [GPTmp 0, GPTmp 1, GPTmp 2] \<rparr>"

text \<open>\<open>n\<close> iterations of the body of the loop of \<^verbatim>\<open>allocate\<close>.\<close>

fun mainSteps :: "nat \<Rightarrow> allocator \<Rightarrow> allocator option" where
  "mainSteps 0 s = Some s"
| "mainSteps (Suc n) s = (case mainStep s of None \<Rightarrow> None | Some s' \<Rightarrow> mainSteps n s')"

text \<open>A target with one register per bank, two registers per bank; every argument
  admits a stack slot, or none does.\<close>

definition oneRegister :: collaborators where
  "oneRegister =
     \<lparr> regsInPriorityOrder = (\<lambda>b. case b of GP \<Rightarrow> [GPR 0] | FP \<Rightarrow> [FPR 0]),
       admitsStack = (\<lambda>_ _. True),
       liveness = blockLiveness \<rparr>"

definition twoRegisters :: collaborators where
  "twoRegisters =
     \<lparr> regsInPriorityOrder = (\<lambda>b. case b of GP \<Rightarrow> [GPR 0, GPR 1] | FP \<Rightarrow> [FPR 0, FPR 1]),
       admitsStack = (\<lambda>_ _. False),
       liveness = blockLiveness \<rparr>"

definition unary :: "role \<Rightarrow> tmp \<Rightarrow> inst" where
  "unary r t = \<lparr> opcode = Opcode 0, args = [(Tmp t, r, tmpBank t)] \<rparr>"

definition moveInst :: "tmp \<Rightarrow> tmp \<Rightarrow> inst" where
  "moveInst src dst =
     \<lparr> opcode = moveOpcode (tmpBank dst),
       args = [(Tmp src, Use, tmpBank src), (Tmp dst, Def, tmpBank dst)] \<rparr>"

text \<open>Two temporaries of each bank that are live together.\<close>

definition twoLive :: code where
  "twoLive =
     \<lparr> blocks = [[unary Def (GPTmp 0), unary Def (GPTmp 1), unary Use (GPTmp 0), unary Use (GPTmp 1),
                  unary Def (FPTmp 0), unary Def (FPTmp 1), unary Use (FPTmp 0), unary Use (FPTmp 1)]],
       numGPTmps = 2, numFPTmps = 2, numStackSlots = 0 \<rparr>"

text \<open>A chain of two moves \<open>b \<leftarrow> a\<close>, \<open>c \<leftarrow> b\<close> beside two long-lived temporaries
  (\<open>x\<close> is \<open>GPTmp 0\<close>, \<open>a\<close>, \<open>b\<close>, \<open>c\<close> are \<open>GPTmp 1\<close>, \<open>2\<close>, \<open>3\<close>, and \<open>y\<close> is
  \<open>GPTmp 4\<close>), and the allocator of the GP bank built from it, with its work lists.\<close>

definition moveChain :: code where
  "moveChain =
     \<lparr> blocks = [[unary Def (GPTmp 0), unary Def (GPTmp 1),
                  moveInst (GPTmp 1) (GPTmp 2), moveInst (GPTmp 2) (GPTmp 3),
                  unary Def (GPTmp 4),
                  unary Use (GPTmp 0), unary Use (GPTmp 3), unary Use (GPTmp 4)]],
       numGPTmps = 5, numFPTmps = 0, numStackSlots = 0 \<rparr>"

definition builtAllocator :: "collaborators \<Rightarrow> bank \<Rightarrow> code \<Rightarrow> allocator" where
  "builtAllocator env type c =
     makeWorkList type (buildCode type (liveness env c) c (newAllocator env type c))"

text \<open>Two moves whose destinations outlive a third temporary: \<open>t1 \<leftarrow> t0\<close> and
  \<open>t3 \<leftarrow> t4\<close>, with \<open>t1\<close> live across the definitions of \<open>t4\<close> and \<open>t3\<close>.\<close>

definition twoMoves :: code where
  "twoMoves =
     \<lparr> blocks = [[unary Def (GPTmp 0), moveInst (GPTmp 0) (GPTmp 1),
                  unary Def (GPTmp 4), moveInst (GPTmp 4) (GPTmp 3),
                  unary Use (GPTmp 1)]],
       numGPTmps = 5, numFPTmps = 0, numStackSlots = 0 \<rparr>"

section \<open>Predicates of the properties\<close>

text \<open>The neighbours of a temporary in the graph as it is: the entries of its adjacency
  list that are still in the graph, neither on the select stack nor coalesced.  They
  are the temporaries that \<^verbatim>\<open>forEachAdjacent\<close> visits.\<close>

definition neighbours :: "allocator \<Rightarrow> tmp \<Rightarrow> tmp set" where
  "neighbours s t = {x \<in> set (adjacencyList s t). \<not> hasBeenSimplified x s}"

text \<open>A temporary that the conservative rule of the source counts: still in the graph
  and of degree at least \<open>K\<close>.\<close>

definition highOrder :: "allocator \<Rightarrow> tmp \<Rightarrow> bool" where
  "highOrder s t = (\<not> hasBeenSimplified t s \<and> degrees s t \<ge> numberOfRegisters s)"

text \<open>What one step may do to the alias map: nothing, or give the unaliased \<open>v\<close> the
  alias \<open>u\<close>, another unaliased temporary.\<close>

definition aliasStep :: "allocator \<Rightarrow> allocator \<Rightarrow> bool" where
  "aliasStep s s' =
     (coalescedTmps s' = coalescedTmps s
      \<or> (\<exists>u v. u \<noteq> v \<and> coalescedTmps s v = None \<and> coalescedTmps s u = None
            \<and> coalescedTmps s' = (coalescedTmps s)(v \<mapsto> u)))"

text \<open>The alias map as a relation, the alias below the temporary that points to it.\<close>

definition aliasOrder :: "(tmp \<Rightarrow> tmp option) \<Rightarrow> (tmp \<times> tmp) set" where
  "aliasOrder alias = {(u, v). alias v = Some u}"

text \<open>One temporary of the GP bank, two of the FP bank that are live together.\<close>

definition fpPressure :: code where
  "fpPressure =
     \<lparr> blocks = [[unary Def (GPTmp 0), unary Use (GPTmp 0),
                  unary Def (FPTmp 0), unary Def (FPTmp 1), unary Use (FPTmp 0), unary Use (FPTmp 1)]],
       numGPTmps = 1, numFPTmps = 2, numStackSlots = 0 \<rparr>"

text \<open>A move of each bank in one block.  In the first program the GP move stands in
  front of the FP move, in the second behind it.\<close>

definition movesOfBothBanks :: code where
  "movesOfBothBanks =
     \<lparr> blocks = [[unary Def (GPTmp 0), moveInst (GPTmp 0) (GPTmp 1), unary Use (GPTmp 1),
                  unary Def (FPTmp 0), moveInst (FPTmp 0) (FPTmp 1), unary Use (FPTmp 1)]],
       numGPTmps = 2, numFPTmps = 2, numStackSlots = 0 \<rparr>"

definition fpMoveFirst :: code where
  "fpMoveFirst =
     \<lparr> blocks = [[unary Def (FPTmp 0), moveInst (FPTmp 0) (FPTmp 1), unary Use (FPTmp 1),
                  unary Def (GPTmp 0), moveInst (GPTmp 0) (GPTmp 1), unary Use (GPTmp 1)]],
       numGPTmps = 2, numFPTmps = 2, numStackSlots = 0 \<rparr>"

text \<open>The events of a coupled round and of a round of one bank.\<close>

definition coupledRound :: "bool \<Rightarrow> bool \<Rightarrow> event list" where
  "coupledRound gp fp = [LivenessComputed, Allocated GP gp, Allocated FP fp]"

definition bankRound :: "bank \<Rightarrow> bool \<Rightarrow> event list" where
  "bankRound type colored = [LivenessComputed, Allocated type colored]"

section \<open>Properties of the interference construction\<close>

lemma interferenceEdges_appendAdjacent [simp]:
  "interferenceEdges (appendAdjacent a b s) = interferenceEdges s"
  by (simp add: appendAdjacent_def)


lemma moveList_addEdge [simp]: "moveList (addEdge a b s) = moveList s"
  by (simp add: addEdge_def appendAdjacent_def)

lemma worklistMoves_addEdge [simp]: "worklistMoves (addEdge a b s) = worklistMoves s"
  by (simp add: addEdge_def appendAdjacent_def)



lemma moveList_addMoveEdges [simp]: "moveList (addMoveEdges type d u live s) = moveList s"
  by (induction live arbitrary: s) (simp_all add: addMoveEdges_def addMoveEdge_def)

lemma worklistMoves_addMoveEdges [simp]:
  "worklistMoves (addMoveEdges type d u live s) = worklistMoves s"
  by (induction live arbitrary: s) (simp_all add: addMoveEdges_def addMoveEdge_def)


text \<open>
  C1.  The claim is that every edge the builder of a bank adds joins two temporaries of
  that bank.  The first loop of \<^verbatim>\<open>build\<close> breaks it: its inner callback tests the bank
  of the outer argument again instead of the bank of the other argument.  For an
  instruction that defines a GP temporary and an FP temporary, the builder of the GP
  bank records an interference edge between the two.
\<close>

theorem build_def_def_edge_across_banks:
  "InterferenceEdge (GPTmp 0) (FPTmp 0) \<in>
     interferenceEdges
       (build GP ((0, 0), \<lparr> opcode = Opcode 0,
                            args = [(Tmp (GPTmp 0), Def, GP), (Tmp (FPTmp 0), Def, FP)] \<rparr>) []
          (initAllocator [GPR 0, GPR 1] 1))
   \<and> isGP (GPTmp 0) \<and> \<not> isGP (FPTmp 0)"
  by (simp add: build_def buildDefs_def forEachTmp_def deref_def mayBeCoalescable_def
      moveOpcode_def addEdges_def addEdge_def appendAdjacent_def initAllocator_def
      InterferenceEdge_def)



section \<open>Properties of the spill selection\<close>

lemma spillScan_decomp:
  "\<forall>t\<in>set pre. deg t < deg v \<Longrightarrow> \<forall>t\<in>set mid. deg t \<le> deg v \<Longrightarrow>
   \<exists>pre' post'. pre @ v # mid @ ts = pre' @ spillScan deg ts v (deg v) # post'
      \<and> (\<forall>t\<in>set pre'. deg t < deg (spillScan deg ts v (deg v)))
      \<and> (\<forall>t\<in>set post'. deg t \<le> deg (spillScan deg ts v (deg v)))"
proof (induction ts arbitrary: pre v mid)
  case Nil
  then show ?case by auto
next
  case (Cons t ts)
  show ?case
  proof (cases "deg t > deg v")
    case True
    have a: "\<forall>x\<in>set (pre @ v # mid). deg x < deg t"
      using Cons.prems True by (auto intro: less_trans le_less_trans)
    have b: "\<forall>x\<in>set []. deg x \<le> deg t" by simp
    from Cons.IH [OF a b] True show ?thesis by simp
  next
    case False
    have b: "\<forall>x\<in>set (mid @ [t]). deg x \<le> deg v"
      using Cons.prems False by auto
    from Cons.IH [OF Cons.prems(1) b] False show ?thesis by simp
  qed
qed

text \<open>
  C7.  On a non-empty spill work list \<^verbatim>\<open>selectSpill\<close> picks the victim of maximum
  degree, the earliest such in the iteration order of the work list (every temporary
  before it has a strictly smaller degree, none after it a larger one); the victim
  leaves the spill work list, is appended to the simplify work list, and
  \<^verbatim>\<open>freezeMoves\<close> runs on it.  The result is a function of the state and the
  iteration order.
\<close>

theorem selectSpill_max_degree:
  assumes "spillWorklist s \<noteq> []"
  shows "\<exists>victim pre post.
           spillWorklist s = pre @ victim # post
         \<and> (\<forall>t\<in>set pre. degrees s t < degrees s victim)
         \<and> (\<forall>t\<in>set post. degrees s t \<le> degrees s victim)
         \<and> selectSpill s =
             Some (freezeMoves victim
                     (s\<lparr> spillWorklist := hashRemove victim (spillWorklist s),
                         simplifyWorklist := simplifyWorklist s @ [victim] \<rparr>))"
proof -
  from assms obtain first rest where w: "spillWorklist s = first # rest"
    by (cases "spillWorklist s") auto
  let ?v = "spillScan (degrees s) rest first (degrees s first)"
  have "\<exists>pre' post'. [] @ first # [] @ rest = pre' @ ?v # post'
      \<and> (\<forall>t\<in>set pre'. degrees s t < degrees s ?v)
      \<and> (\<forall>t\<in>set post'. degrees s t \<le> degrees s ?v)"
    by (rule spillScan_decomp) simp_all
  then obtain pre post where d: "first # rest = pre @ ?v # post"
      "\<forall>t\<in>set pre. degrees s t < degrees s ?v" "\<forall>t\<in>set post. degrees s t \<le> degrees s ?v"
    by auto
  have "selectSpill s = Some (freezeMoves ?v
                     (s\<lparr> spillWorklist := hashRemove ?v (spillWorklist s),
                         simplifyWorklist := simplifyWorklist s @ [?v] \<rparr>))"
    by (simp add: selectSpill_def w Let_def)
  with d w show ?thesis
    by (intro exI [of _ ?v] exI [of _ pre] exI [of _ post]) simp
qed

theorem selectSpill_max_degree_witness:
  "spillWorklist spillExample \<noteq> [] \<and>
   (\<exists>victim pre post.
       spillWorklist spillExample = pre @ victim # post
     \<and> (\<forall>t\<in>set pre. degrees spillExample t < degrees spillExample victim)
     \<and> (\<forall>t\<in>set post. degrees spillExample t \<le> degrees spillExample victim)
     \<and> selectSpill spillExample =
         Some (freezeMoves victim
                 (spillExample\<lparr> spillWorklist := hashRemove victim (spillWorklist spillExample),
                     simplifyWorklist := simplifyWorklist spillExample @ [victim] \<rparr>)))"
proof -
  have h: "spillWorklist spillExample \<noteq> []" by (simp add: spillExample_def)
  show ?thesis by (rule conjI [OF h selectSpill_max_degree [OF h]])
qed

lemma selectSpill_example:
  "map_option simplifyWorklist (selectSpill spillExample) = Some [GPTmp 1]"
  by (simp add: spillExample_def selectSpill_def initAllocator_def hashRemove_def freezeMoves_def)

section \<open>Properties of the constant table\<close>

lemma needsMotion_goesInTable:
  "(needsMotion v \<and> goesInTable (valueKeyOf v)) =
     (valueOpcode v = ConstDouble \<and> valueKeyOf v \<noteq> doubleZero)"
  by (auto simp: needsMotion_def goesInTable_def valueKeyOf_def isConstant_def hasInt_def)

lemma constTable_collectConstant:
  "fst ` set (constTable (collectConstant v m)) =
     fst ` set (constTable m) \<union>
     (if needsMotion v \<and> goesInTable (valueKeyOf v) then {valueKeyOf v} else {})"
  by (auto simp: collectConstant_def constTableAdd_def Let_def)

lemma constTable_fold_collectConstant:
  "fst ` set (constTable (fold collectConstant vs m)) =
     fst ` set (constTable m) \<union>
     {valueKeyOf v | v. v \<in> set vs \<and> needsMotion v \<and> goesInTable (valueKeyOf v)}"
proof (induction vs arbitrary: m)
  case Nil
  show ?case by simp
next
  case (Cons v vs)
  show ?case
    unfolding fold_simps Cons.IH constTable_collectConstant by auto
qed

text \<open>
  C9.  The keys of the constant table built by \<^verbatim>\<open>run\<close> are exactly the keys of the
  double constants of the procedure that differ from \<^verbatim>\<open>doubleZero()\<close>, the key of the
  bit pattern of \<open>+0.0\<close>; that key is never in the table, whatever the procedure; and
  \<^verbatim>\<open>goesInTable\<close> holds of a key iff it is a double constant other than that one.
\<close>

theorem table_holds_nonzero_doubles:
  "fst ` set (constTable (collectConstants vs)) =
     {valueKeyOf v | v. v \<in> set vs \<and> valueOpcode v = ConstDouble \<and> valueKeyOf v \<noteq> doubleZero}
   \<and> doubleZero \<notin> fst ` set (constTable (collectConstants vs))
   \<and> goesInTable k = (keyOpcode k = ConstDouble \<and> k \<noteq> doubleZero)"
proof -
  have keys: "fst ` set (constTable (collectConstants vs)) =
      {valueKeyOf v | v. v \<in> set vs \<and> needsMotion v \<and> goesInTable (valueKeyOf v)}"
    by (simp add: collectConstants_def constTable_fold_collectConstant)
  show ?thesis
    unfolding keys needsMotion_goesInTable by (auto simp: goesInTable_def)
qed

section \<open>Properties of freezing\<close>

text \<open>
  C3.  The claim is that \<^verbatim>\<open>freezeMoves\<close> takes the other endpoint of a move after alias
  resolution.  The source takes the raw argument of the instruction instead
  (\<^verbatim>\<open>inst.args[0].tmp() != tmp ? inst.args[0].tmp() : inst.args[1].tmp()\<close>), unlike
  \<^verbatim>\<open>coalesce\<close>, which resolves both arguments of the same moves with \<^verbatim>\<open>getAlias\<close>.
  On the program \<open>moveChain\<close> with two registers the main loop coalesces \<open>b\<close> into \<open>a\<close>,
  leaves the move \<open>c \<leftarrow> b\<close> active, and then freezes \<open>a\<close>: the freeze work list is
  \<open>[a]\<close>, the simplify work list is empty and the alias of \<open>b\<close> is \<open>a\<close>.  Freezing puts
  \<open>b\<close>, which is coalesced, on the simplify work list; the endpoint after alias
  resolution is \<open>c\<close>.
\<close>

theorem freezeMoves_takes_raw_argument:
  "map_option (\<lambda>s. (freezeWorklist s, simplifyWorklist s, coalescedTmps s (GPTmp 2),
                      map_option simplifyWorklist (freeze s)))
     (mainSteps 2 (builtAllocator twoRegisters GP moveChain))
   = Some ([GPTmp 1], [], Some (GPTmp 1), Some [GPTmp 1, GPTmp 2])"
  by code_simp

section \<open>Properties of the coloring\<close>

text \<open>
  C8.  When \<^verbatim>\<open>assignColors\<close> returns with a non-empty spill set, the color map is empty
  and the select stack has been popped entirely; and with a non-empty spill set the
  driver inserts spill code instead of writing registers into the program.
\<close>

theorem assignColors_all_or_nothing:
  assumes "assignColors regs s = Some s'"
  shows "(spilledTmp s' \<noteq> [] \<longrightarrow> coloredTmp s' = (\<lambda>_. None))
       \<and> selectStack s' = []
       \<and> (spilledTmp s' \<noteq> [] \<longrightarrow>
            finishRound env type c s' =
              Some (addSpillAndFillToProgram (admitsStack env) type c (spilledTmp s')))"
proof -
  from assms obtain s2 where
    s': "s' = (if spilledTmp (s2\<lparr> selectStack := [] \<rparr>) \<noteq> []
               then s2\<lparr> selectStack := [], coloredTmp := (\<lambda>_. None) \<rparr>
               else s2\<lparr> selectStack := [] \<rparr>)"
    by (auto simp: assignColors_def Let_def split: option.splits)
  show ?thesis
    by (cases "spilledTmp s2 = []") (simp_all add: s' finishRound_def)
qed

lemma twoLive_spills:
  "map_option spilledTmp
     (assignColors [GPR 0] (the (allocateLoop (builtAllocator oneRegister GP twoLive))))
   = Some [GPTmp 0]"
  by code_simp

theorem assignColors_all_or_nothing_witness:
  "spilledTmp (the (assignColors [GPR 0]
      (the (allocateLoop (builtAllocator oneRegister GP twoLive))))) \<noteq> []
   \<and> coloredTmp (the (assignColors [GPR 0]
      (the (allocateLoop (builtAllocator oneRegister GP twoLive))))) = (\<lambda>_. None)"
proof -
  let ?s = "the (allocateLoop (builtAllocator oneRegister GP twoLive))"
  from twoLive_spills obtain s' where
    s': "assignColors [GPR 0] ?s = Some s'" and sp: "spilledTmp s' = [GPTmp 0]"
    by (cases "assignColors [GPR 0] ?s") auto
  from assignColors_all_or_nothing [OF s'] sp have "coloredTmp s' = (\<lambda>_. None)"
    by simp
  with s' sp show ?thesis by simp
qed

section \<open>Properties of the alias map\<close>

lemma fold_frame: "(\<And>x s. g (f x s) = g s) \<Longrightarrow> g (fold f xs s) = g s"
  by (induction xs arbitrary: s) auto

lemma alias_addEdge [simp]: "coalescedTmps (addEdge a b s) = coalescedTmps s"
  by (simp add: addEdge_def appendAdjacent_def)

lemma alias_addWorkList [simp]: "coalescedTmps (addWorkList t s) = coalescedTmps s"
  by (simp add: addWorkList_def)

lemma alias_enableMove [simp]: "coalescedTmps (enableMove i s) = coalescedTmps s"
  by (simp add: enableMove_def)

lemma alias_enableMovesOnValue [simp]: "coalescedTmps (enableMovesOnValue t s) = coalescedTmps s"
  unfolding enableMovesOnValue_def by (rule fold_frame) simp

lemma alias_forEachAdjacent:
  assumes "\<And>x s. coalescedTmps (f x s) = coalescedTmps s"
  shows "coalescedTmps (forEachAdjacent t f s) = coalescedTmps s"
  unfolding forEachAdjacent_def by (rule fold_frame) (simp add: unlessSimplified_def assms)

lemma alias_enableMovesOnValueAndAdjacents [simp]:
  "coalescedTmps (enableMovesOnValueAndAdjacents t s) = coalescedTmps s"
  by (simp add: enableMovesOnValueAndAdjacents_def alias_forEachAdjacent)

lemma alias_decrementDegree [simp]: "coalescedTmps (decrementDegree t s) = coalescedTmps s"
  by (simp add: decrementDegree_def Let_def)

lemma alias_combineAdjacent [simp]: "coalescedTmps (combineAdjacent u t s) = coalescedTmps s"
  by (simp add: combineAdjacent_def)

lemma alias_combine: "coalescedTmps (combine u v s) = (coalescedTmps s)(v \<mapsto> u)"
  by (simp add: combine_def Let_def alias_forEachAdjacent)

lemma alias_simplify: "simplify s = Some s' \<Longrightarrow> coalescedTmps s' = coalescedTmps s"
  by (auto simp: simplify_def Let_def alias_forEachAdjacent split: list.splits)

lemma alias_freezeMove [simp]: "coalescedTmps (freezeMove t i s) = coalescedTmps s"
  by (simp add: freezeMove_def Let_def split: option.splits)

lemma alias_freezeMoves [simp]: "coalescedTmps (freezeMoves t s) = coalescedTmps s"
  unfolding freezeMoves_def by (rule fold_frame) (simp add: freezeLiveMove_def)

lemma alias_freeze: "freeze s = Some s' \<Longrightarrow> coalescedTmps s' = coalescedTmps s"
  by (auto simp: freeze_def split: list.splits)

lemma alias_selectSpill: "selectSpill s = Some s' \<Longrightarrow> coalescedTmps s' = coalescedTmps s"
  by (auto simp: selectSpill_def Let_def split: list.splits)

lemma getAlias_root:
  assumes "getAlias alias t = Some r"
  shows "alias r = None"
  by (rule getAlias.raw_induct [where P = "\<lambda>alias t r. alias r = None", OF _ assms])
    (auto split: option.splits)

lemma coalesceOperands_roots:
  assumes "coalesceOperands m s = Some (u, v)"
  shows "coalescedTmps s u = None \<and> coalescedTmps s v = None"
  using assms
  by (auto simp: coalesceOperands_def split: option.splits if_splits dest: getAlias_root)

lemma alias_coalesce: "coalesce s = Some s' \<Longrightarrow> aliasStep s s'"
proof -
  assume a: "coalesce s = Some s'"
  let ?s1 = "s\<lparr> worklistMoves := butlast (worklistMoves s) \<rparr>"
  from a obtain u v where
    ops: "coalesceOperands (last (worklistMoves s)) ?s1 = Some (u, v)" and
    res: "s' = (case coalesceCase u v ?s1 of
                  Coalesced \<Rightarrow> addWorkList u ?s1
                | Constrained \<Rightarrow> addWorkList v (addWorkList u ?s1)
                | SafeCoalescing \<Rightarrow> addWorkList u (combine u v ?s1)
                | FailedCoalescing \<Rightarrow>
                    ?s1\<lparr> activeMoves := insert (last (worklistMoves s)) (activeMoves ?s1) \<rparr>)"
    by (auto simp: coalesce_def Let_def split: list.splits option.splits coalesceBranch.splits)
  from coalesceOperands_roots [OF ops] have roots: "coalescedTmps s u = None" "coalescedTmps s v = None"
    by simp_all
  show ?thesis
  proof (cases "coalesceCase u v ?s1")
    case SafeCoalescing
    then have "u \<noteq> v" by (auto simp: coalesceCase_def split: if_splits)
    moreover from res SafeCoalescing have "coalescedTmps s' = (coalescedTmps s)(v \<mapsto> u)"
      by (simp add: alias_combine)
    ultimately show ?thesis using roots unfolding aliasStep_def by blast
  qed (simp_all add: res aliasStep_def)
qed

lemma aliasStep_same: "coalescedTmps s' = coalescedTmps s \<Longrightarrow> aliasStep s s'"
  by (simp add: aliasStep_def)

lemma alias_mainStep:
  assumes "mainStep s = Some s'"
  shows "aliasStep s s'"
proof (cases "simplifyWorklist s \<noteq> []")
  case True
  with assms have "simplify s = Some s'" by (simp add: mainStep_def)
  then show ?thesis by (rule aliasStep_same [OF alias_simplify])
next
  case simp: False
  show ?thesis
  proof (cases "worklistMoves s \<noteq> []")
    case True
    with assms simp have "coalesce s = Some s'" by (simp add: mainStep_def)
    then show ?thesis by (rule alias_coalesce)
  next
    case moves: False
    show ?thesis
    proof (cases "freezeWorklist s \<noteq> []")
      case True
      with assms simp moves have "freeze s = Some s'" by (simp add: mainStep_def)
      then show ?thesis by (rule aliasStep_same [OF alias_freeze])
    next
      case frz: False
      show ?thesis
      proof (cases "spillWorklist s \<noteq> []")
        case True
        with assms simp moves frz have "selectSpill s = Some s'" by (simp add: mainStep_def)
        then show ?thesis by (rule aliasStep_same [OF alias_selectSpill])
      next
        case False
        with assms simp moves frz have "s' = s" by (simp add: mainStep_def)
        then show ?thesis by (simp add: aliasStep_def)
      qed
    qed
  qed
qed

lemma wf_aliasStep:
  assumes "aliasStep s s'" and "wf (aliasOrder (coalescedTmps s))"
  shows "wf (aliasOrder (coalescedTmps s'))"
proof (cases "coalescedTmps s' = coalescedTmps s")
  case True
  with assms(2) show ?thesis by simp
next
  case False
  with assms(1) obtain u v where uv: "u \<noteq> v" "coalescedTmps s v = None"
      "coalescedTmps s u = None" "coalescedTmps s' = (coalescedTmps s)(v \<mapsto> u)"
    unfolding aliasStep_def by blast
  have ins: "aliasOrder (coalescedTmps s') = insert (u, v) (aliasOrder (coalescedTmps s))"
    using uv by (auto simp: aliasOrder_def split: if_splits)
  have "(v, u) \<notin> (aliasOrder (coalescedTmps s))\<^sup>*"
  proof
    assume "(v, u) \<in> (aliasOrder (coalescedTmps s))\<^sup>*"
    then show False
    proof (cases rule: rtranclE)
      case base
      with uv(1) show False by simp
    next
      case (step w)
      then have "coalescedTmps s u = Some w" by (simp add: aliasOrder_def)
      with uv(3) show False by simp
    qed
  qed
  with assms(2) show ?thesis unfolding ins by (simp add: wf_insert)
qed

lemma wf_mainSteps:
  "mainSteps n s = Some s' \<Longrightarrow> wf (aliasOrder (coalescedTmps s)) \<Longrightarrow>
   wf (aliasOrder (coalescedTmps s'))"
proof (induction n arbitrary: s)
  case 0
  then show ?case by simp
next
  case (Suc n)
  from Suc.prems(1) obtain s1 where s1: "mainStep s = Some s1" "mainSteps n s1 = Some s'"
    by (auto split: option.splits)
  from wf_aliasStep [OF alias_mainStep [OF s1(1)] Suc.prems(2)]
  show ?case by (rule Suc.IH [OF s1(2)])
qed

lemma getAlias_unset: "alias t = None \<Longrightarrow> getAlias alias t = Some t"
  by (subst getAlias.simps) simp

lemma getAlias_set: "alias t = Some u \<Longrightarrow> getAlias alias t = getAlias alias u"
  by (subst getAlias.simps) simp

lemma getAlias_total:
  assumes "wf (aliasOrder alias)"
  shows "\<exists>r. getAlias alias t = Some r \<and> alias r = None"
  using assms
proof (induction t rule: wf_induct_rule)
  case (less t)
  show ?case
  proof (cases "alias t")
    case None
    then show ?thesis by (simp add: getAlias_unset)
  next
    case (Some u)
    then have "(u, t) \<in> aliasOrder alias" by (simp add: aliasOrder_def)
    from less.IH [OF this] Some show ?thesis by (simp add: getAlias_set)
  qed
qed

lemma acyclic_aliasOrder:
  assumes "wf (aliasOrder alias)"
  shows "acyclic {(v, u). alias v = Some u}"
proof -
  have "{(v, u). alias v = Some u} = (aliasOrder alias)\<inverse>"
    by (auto simp: aliasOrder_def)
  with wf_acyclic [OF assms] show ?thesis by simp
qed

lemma alias_appendAdjacent [simp]: "coalescedTmps (appendAdjacent a b s) = coalescedTmps s"
  by (simp add: appendAdjacent_def)

lemma alias_buildDefsInner [simp]:
  "coalescedTmps (buildDefsInner type a argType x s) = coalescedTmps s"
  by (cases x) simp

lemma alias_buildDefsOuter [simp]:
  "coalescedTmps (buildDefsOuter type i x s) = coalescedTmps s"
  by (cases x) (simp add: fold_frame)

lemma alias_buildDefs [simp]: "coalescedTmps (buildDefs type i s) = coalescedTmps s"
  unfolding buildDefs_def by (rule fold_frame) simp

lemma alias_addToMoveList [simp]: "coalescedTmps (addToMoveList p sl s) = coalescedTmps s"
  by (cases "(p, sl, s)" rule: addToMoveList.cases) simp_all

lemma alias_addToMoveLists [simp]: "coalescedTmps (addToMoveLists p s) = coalescedTmps s"
  unfolding addToMoveLists_def by (rule fold_frame) simp

lemma alias_addToWorklistMoves [simp]:
  "coalescedTmps (addToWorklistMoves p s) = coalescedTmps s"
  by (simp add: addToWorklistMoves_def)

lemma alias_addMoveEdges [simp]:
  "coalescedTmps (addMoveEdges type d u live s) = coalescedTmps s"
  unfolding addMoveEdges_def by (rule fold_frame) (simp add: addMoveEdge_def)

lemma alias_addDefUseEdges [simp]:
  "coalescedTmps (addDefUseEdges type du live s) = coalescedTmps s"
  by (cases "(type, du, live, s)" rule: addDefUseEdges.cases) simp_all

lemma alias_addEdgesArg [simp]:
  "coalescedTmps (addEdgesArg type live x s) = coalescedTmps s"
  by (cases x) (simp add: fold_frame addEdgesLive_def)

lemma alias_addEdges [simp]: "coalescedTmps (addEdges type i live s) = coalescedTmps s"
  unfolding addEdges_def by (rule fold_frame) simp

lemma alias_build [simp]: "coalescedTmps (build type p live s) = coalescedTmps s"
  by (simp add: build_def)

lemma alias_buildBlock [simp]: "coalescedTmps (buildBlock type live c bi s) = coalescedTmps s"
  unfolding buildBlock_def by (rule fold_frame) (simp add: buildAt_def)

lemma alias_buildCode [simp]: "coalescedTmps (buildCode type live c s) = coalescedTmps s"
  unfolding buildCode_def by (rule fold_frame) simp

lemma alias_makeWorkList [simp]: "coalescedTmps (makeWorkList type s) = coalescedTmps s"
  unfolding makeWorkList_def
  by (rule fold_frame) (simp add: makeWorkListAt_def makeWorkListStep_def Let_def)

lemma alias_builtAllocator: "coalescedTmps (builtAllocator env type c) = (\<lambda>_. None)"
  by (simp add: builtAllocator_def newAllocator_def initAllocator_def)

lemma wf_builtAllocator: "wf (aliasOrder (coalescedTmps (builtAllocator env type c)))"
  by (simp add: alias_builtAllocator aliasOrder_def)

text \<open>
  C10.  At every point of the main loop, started on the allocator that \<^verbatim>\<open>build\<close> and
  \<^verbatim>\<open>makeWorkList\<close> leave, the alias map is acyclic and \<^verbatim>\<open>getAlias\<close> returns for every
  temporary, with a temporary that has no alias; and the next step leaves the alias
  map as it is or gives one temporary \<open>v\<close> without an alias the alias \<open>u\<close>, a different
  temporary without an alias, so that no alias is ever overwritten.
\<close>

theorem alias_map_acyclic:
  assumes "mainSteps n (builtAllocator env type c) = Some s"
  shows "acyclic {(v, u). coalescedTmps s v = Some u}
       \<and> (\<forall>t. \<exists>r. getAlias (coalescedTmps s) t = Some r \<and> coalescedTmps s r = None)
       \<and> (\<forall>s'. mainStep s = Some s' \<longrightarrow>
              coalescedTmps s' = coalescedTmps s
            \<or> (\<exists>u v. u \<noteq> v \<and> coalescedTmps s v = None \<and> coalescedTmps s u = None
                  \<and> coalescedTmps s' = (coalescedTmps s)(v \<mapsto> u)))"
proof -
  have wf: "wf (aliasOrder (coalescedTmps s))"
    by (rule wf_mainSteps [OF assms wf_builtAllocator])
  have step: "\<forall>s'. mainStep s = Some s' \<longrightarrow>
              coalescedTmps s' = coalescedTmps s
            \<or> (\<exists>u v. u \<noteq> v \<and> coalescedTmps s v = None \<and> coalescedTmps s u = None
                  \<and> coalescedTmps s' = (coalescedTmps s)(v \<mapsto> u))"
    using alias_mainStep by (simp add: aliasStep_def)
  from acyclic_aliasOrder [OF wf] getAlias_total [OF wf] step show ?thesis
    by blast
qed

lemma twoMoves_aliases:
  "map_option (\<lambda>s. (getAlias (coalescedTmps s) (GPTmp 1), getAlias (coalescedTmps s) (GPTmp 3)))
     (mainSteps 2 (builtAllocator twoRegisters GP twoMoves))
   = Some (Some (GPTmp 0), Some (GPTmp 4))"
  by code_simp

theorem alias_map_acyclic_witness:
  "\<exists>s. mainSteps 2 (builtAllocator twoRegisters GP twoMoves) = Some s
      \<and> getAlias (coalescedTmps s) (GPTmp 1) = Some (GPTmp 0)
      \<and> acyclic {(v, u). coalescedTmps s v = Some u}
      \<and> (\<forall>t. \<exists>r. getAlias (coalescedTmps s) t = Some r \<and> coalescedTmps s r = None)"
proof -
  from twoMoves_aliases obtain s where
    s: "mainSteps 2 (builtAllocator twoRegisters GP twoMoves) = Some s" and
    a: "getAlias (coalescedTmps s) (GPTmp 1) = Some (GPTmp 0)"
    by (cases "mainSteps 2 (builtAllocator twoRegisters GP twoMoves)") auto
  from alias_map_acyclic [OF s] s a show ?thesis by blast
qed

section \<open>Properties of coalescing\<close>

lemma precolored_heuristic_holds:
  assumes "precoloredCoalescingHeuristic u v s" and "t \<in> set (adjacencyList s v)"
  shows "InterferenceEdge u t \<in> interferenceEdges s \<or> isReg t
       \<or> degrees s t < numberOfRegisters s
       \<or> t \<in> isOnSelectStack s \<or> coalescedTmps s t \<noteq> None"
proof -
  from assms have "\<not> riskyAdjacent u s t"
    by (auto simp: precoloredCoalescingHeuristic_def list_ex_iff)
  then show ?thesis
    by (auto simp: riskyAdjacent_def hasBeenSimplified_def not_le)
qed

lemma highOrderScan_Some:
  "highOrderScan s xs high = Some high' \<Longrightarrow> distinct high \<Longrightarrow>
   distinct high' \<and> set high' = set high \<union> {t \<in> set xs. highOrder s t}
   \<and> (high' = high \<or> length high' < unat (numberOfRegisters s))"
proof (induction xs arbitrary: high)
  case Nil
  then show ?case by simp
next
  case (Cons t xs)
  show ?case
  proof (cases "highOrder s t")
    case False
    with Cons.prems have "highOrderScan s xs high = Some high'"
      by (auto simp: highOrder_def split: if_splits)
    from Cons.IH [OF this Cons.prems(2)] False show ?thesis by auto
  next
    case True
    show ?thesis
    proof (cases "t \<in> set high")
      case True
      with \<open>highOrder s t\<close> Cons.prems have "highOrderScan s xs high = Some high'"
        by (auto simp: highOrder_def hashAdd_def split: if_splits)
      from Cons.IH [OF this Cons.prems(2)] True \<open>highOrder s t\<close> show ?thesis by auto
    next
      case False
      with \<open>highOrder s t\<close> Cons.prems have
        small: "length high + 1 < unat (numberOfRegisters s)" and
        rec: "highOrderScan s xs (high @ [t]) = Some high'"
        by (auto simp: highOrder_def hashAdd_def split: if_splits)
      have d: "distinct (high @ [t])" using False Cons.prems(2) by simp
      from Cons.IH [OF rec d] small \<open>highOrder s t\<close> show ?thesis by auto
    qed
  qed
qed

lemma conservative_heuristic_holds:
  assumes "conservativeHeuristic u v s" and "numberOfRegisters s \<noteq> 0"
  shows "card {t \<in> set (adjacencyList s u) \<union> set (adjacencyList s v). highOrder s t}
           < unat (numberOfRegisters s)"
proof (cases "length (adjacencyList s u) + length (adjacencyList s v) < unat (numberOfRegisters s)")
  case True
  have "card {t \<in> set (adjacencyList s u) \<union> set (adjacencyList s v). highOrder s t}
          \<le> card (set (adjacencyList s u) \<union> set (adjacencyList s v))"
    by (rule card_mono) auto
  also have "\<dots> \<le> card (set (adjacencyList s u)) + card (set (adjacencyList s v))"
    by (rule card_Un_le)
  also have "\<dots> \<le> length (adjacencyList s u) + length (adjacencyList s v)"
    by (intro add_mono card_length)
  finally show ?thesis using True by simp
next
  case False
  with assms(1) obtain h1 h2 where
    s1: "highOrderScan s (adjacencyList s u) [] = Some h1" and
    s2: "highOrderScan s (adjacencyList s v) h1 = Some h2"
    by (auto simp: conservativeHeuristic_def split: option.splits)
  from highOrderScan_Some [OF s1] have
    h1: "distinct h1" "set h1 = {t \<in> set (adjacencyList s u). highOrder s t}"
        "h1 = [] \<or> length h1 < unat (numberOfRegisters s)"
    by auto
  from highOrderScan_Some [OF s2 h1(1)] have
    h2: "distinct h2" "set h2 = set h1 \<union> {t \<in> set (adjacencyList s v). highOrder s t}"
        "h2 = h1 \<or> length h2 < unat (numberOfRegisters s)"
    by auto
  have pos: "0 < unat (numberOfRegisters s)"
    using assms(2) by (simp add: unat_gt_0)
  have "{t \<in> set (adjacencyList s u) \<union> set (adjacencyList s v). highOrder s t} = set h2"
    using h1(2) h2(2) by auto
  then have "card {t \<in> set (adjacencyList s u) \<union> set (adjacencyList s v). highOrder s t} = length h2"
    using h2(1) by (simp add: distinct_card)
  moreover have "length h2 < unat (numberOfRegisters s)"
    using h1(3) h2(3) pos by auto
  ultimately show ?thesis by simp
qed

lemma conservative_fast_path:
  "length (adjacencyList s u) + length (adjacencyList s v) < unat (numberOfRegisters s)
   \<Longrightarrow> conservativeHeuristic u v s"
  by (simp add: conservativeHeuristic_def)

text \<open>
  C5.  Whenever \<^verbatim>\<open>coalesce\<close> changes the alias map, that is whenever \<^verbatim>\<open>combine(u, v)\<close>
  fires, the conservative test held on the graph at that moment, \<open>K\<close> being the number
  of registers of the bank (the source asserts at the end of \<^verbatim>\<open>conservativeHeuristic\<close>
  that the count is below \<open>K\<close>, so \<open>K\<close> is not zero).  For a precolored \<open>u\<close>, every
  neighbour \<open>t\<close> of \<open>v\<close> interferes with \<open>u\<close>, or is precolored, or has degree below
  \<open>K\<close>, or is on the select stack.  Otherwise the distinct neighbours of \<open>u\<close> and of
  \<open>v\<close> that have degree at least \<open>K\<close> number fewer than \<open>K\<close>; this covers the fast path,
  on which the two adjacency lists together have fewer than \<open>K\<close> entries.
\<close>

theorem combine_only_when_conservative:
  assumes "coalesce s = Some s'"
    and "coalescedTmps s' \<noteq> coalescedTmps s"
    and "numberOfRegisters s \<noteq> 0"
  shows "\<exists>u v.
           coalesceOperands (last (worklistMoves s))
             (s\<lparr> worklistMoves := butlast (worklistMoves s) \<rparr>) = Some (u, v)
         \<and> s' = addWorkList u (combine u v (s\<lparr> worklistMoves := butlast (worklistMoves s) \<rparr>))
         \<and> (isReg u \<longrightarrow>
               (\<forall>t\<in>neighbours s v.
                   InterferenceEdge u t \<in> interferenceEdges s \<or> isReg t
                 \<or> degrees s t < numberOfRegisters s
                 \<or> t \<in> isOnSelectStack s))
         \<and> (\<not> isReg u \<longrightarrow>
               card {t \<in> neighbours s u \<union> neighbours s v. degrees s t \<ge> numberOfRegisters s}
                 < unat (numberOfRegisters s))"
proof -
  let ?s1 = "s\<lparr> worklistMoves := butlast (worklistMoves s) \<rparr>"
  from assms(1) obtain u v where
    ops: "coalesceOperands (last (worklistMoves s)) ?s1 = Some (u, v)" and
    res: "s' = (case coalesceCase u v ?s1 of
                  Coalesced \<Rightarrow> addWorkList u ?s1
                | Constrained \<Rightarrow> addWorkList v (addWorkList u ?s1)
                | SafeCoalescing \<Rightarrow> addWorkList u (combine u v ?s1)
                | FailedCoalescing \<Rightarrow>
                    ?s1\<lparr> activeMoves := insert (last (worklistMoves s)) (activeMoves ?s1) \<rparr>)"
    by (auto simp: coalesce_def Let_def split: list.splits option.splits coalesceBranch.splits)
  have safe: "coalesceCase u v ?s1 = SafeCoalescing"
    using res assms(2) by (cases "coalesceCase u v ?s1") simp_all
  then have can: "canBeSafelyCoalesced u v ?s1"
    by (auto simp: coalesceCase_def split: if_splits)
  have g: "\<forall>t\<in>neighbours s v.
                   InterferenceEdge u t \<in> interferenceEdges s \<or> isReg t
                 \<or> degrees s t < numberOfRegisters s
                 \<or> t \<in> isOnSelectStack s" if "isReg u"
  proof
    fix t assume t: "t \<in> neighbours s v"
    then have entry: "t \<in> set (adjacencyList s v)" and kept: "coalescedTmps s t = None"
      by (auto simp: neighbours_def hasBeenSimplified_def)
    from can that have "precoloredCoalescingHeuristic u v ?s1"
      by (simp add: canBeSafelyCoalesced_def)
    from precolored_heuristic_holds [OF this, of t] entry kept
    show "InterferenceEdge u t \<in> interferenceEdges s \<or> isReg t
          \<or> degrees s t < numberOfRegisters s
          \<or> t \<in> isOnSelectStack s"
      by auto
  qed
  have b: "card {t \<in> neighbours s u \<union> neighbours s v. degrees s t \<ge> numberOfRegisters s}
                 < unat (numberOfRegisters s)" if "\<not> isReg u"
  proof -
    from can that have "conservativeHeuristic u v ?s1"
      by (simp add: canBeSafelyCoalesced_def)
    from conservative_heuristic_holds [OF this] assms(3)
    have "card {t \<in> set (adjacencyList s u) \<union> set (adjacencyList s v). highOrder s t}
            < unat (numberOfRegisters s)"
      by (simp add: highOrder_def hasBeenSimplified_def)
    moreover have "{t \<in> neighbours s u \<union> neighbours s v. degrees s t \<ge> numberOfRegisters s}
                 = {t \<in> set (adjacencyList s u) \<union> set (adjacencyList s v). highOrder s t}"
      by (auto simp: neighbours_def highOrder_def)
    ultimately show ?thesis by simp
  qed
  from ops res safe g b show ?thesis by simp
qed

lemma twoMoves_first_coalesce:
  "(coalesceOperands (last (worklistMoves (builtAllocator twoRegisters GP twoMoves)))
      ((builtAllocator twoRegisters GP twoMoves)
         \<lparr> worklistMoves := butlast (worklistMoves (builtAllocator twoRegisters GP twoMoves)) \<rparr>),
    map_option (\<lambda>s'. coalescedTmps s' (GPTmp 1)) (coalesce (builtAllocator twoRegisters GP twoMoves)),
    coalescedTmps (builtAllocator twoRegisters GP twoMoves) (GPTmp 1),
    numberOfRegisters (builtAllocator twoRegisters GP twoMoves))
   = (Some (GPTmp 0, GPTmp 1), Some (Some (GPTmp 0)), None, 2)"
  by code_simp

text \<open>
  The first step on \<open>twoMoves\<close> with two registers combines \<open>t0\<close> and \<open>t1\<close>, neither
  precolored: fewer than two of their neighbours have degree at least two.
\<close>

theorem combine_only_when_conservative_witness:
  "card {t \<in> neighbours (builtAllocator twoRegisters GP twoMoves) (GPTmp 0)
              \<union> neighbours (builtAllocator twoRegisters GP twoMoves) (GPTmp 1).
           degrees (builtAllocator twoRegisters GP twoMoves) t
             \<ge> numberOfRegisters (builtAllocator twoRegisters GP twoMoves)}
     < unat (numberOfRegisters (builtAllocator twoRegisters GP twoMoves))"
proof -
  let ?S = "builtAllocator twoRegisters GP twoMoves"
  from twoMoves_first_coalesce have
    ops: "coalesceOperands (last (worklistMoves ?S))
            (?S\<lparr> worklistMoves := butlast (worklistMoves ?S) \<rparr>) = Some (GPTmp 0, GPTmp 1)" and
    after: "map_option (\<lambda>s'. coalescedTmps s' (GPTmp 1)) (coalesce ?S) = Some (Some (GPTmp 0))" and
    before: "coalescedTmps ?S (GPTmp 1) = None" and
    k: "numberOfRegisters ?S = 2"
    by simp_all
  from after obtain s' where s': "coalesce ?S = Some s'"
    and a: "coalescedTmps s' (GPTmp 1) = Some (GPTmp 0)"
    by (cases "coalesce ?S") auto
  from a before have changed: "coalescedTmps s' \<noteq> coalescedTmps ?S"
    by (metis option.distinct(1))
  from k have nz: "numberOfRegisters ?S \<noteq> 0" by simp
  from combine_only_when_conservative [OF s' changed nz] ops
  show ?thesis by auto
qed

section \<open>Properties of the bank driver\<close>

lemma case_option_SomeE:
  assumes "(case x of None \<Rightarrow> None | Some a \<Rightarrow> f a) = Some y"
  obtains a where "x = Some a" and "f a = Some y"
  using assms by (cases x) auto

text \<open>The loop of \<^verbatim>\<open>allocate()\<close> returns with \<^verbatim>\<open>m_worklistMoves\<close> empty: every move that
  \<^verbatim>\<open>build\<close> stored has been taken, and read, by \<^verbatim>\<open>coalesce\<close>.\<close>

lemma allocateLoop_drains:
  assumes "allocateLoop s = Some s'"
  shows "worklistMoves s' = []"
proof (rule allocateLoop.raw_induct [where P = "\<lambda>s s'. worklistMoves s' = []", OF _ assms])
  fix f :: "allocator \<Rightarrow> allocator option" and s s'
  assume IH: "\<And>s s'. f s = Some s' \<Longrightarrow> worklistMoves s' = []"
  assume body: "(case mainStep s of None \<Rightarrow> None
                 | Some s' \<Rightarrow> if worklistsPending s' then f s' else Some s') = Some s'"
  from body obtain s1 where
    b: "(if worklistsPending s1 then f s1 else Some s1) = Some s'"
    by (rule case_option_SomeE)
  show "worklistMoves s' = []"
  proof (cases "worklistsPending s1")
    case True
    with b IH show ?thesis by simp
  next
    case False
    with b show ?thesis by (simp add: worklistsPending_def)
  qed
qed

lemma onType_trace:
  assumes "iteratedRegisterCoalescingOnType env type c tr = Some y"
  shows "\<exists>m. snd y = tr @ concat (replicate m (bankRound type False)) @ bankRound type True"
proof (rule iteratedRegisterCoalescingOnType.raw_induct
    [where P = "\<lambda>env type c tr y.
        \<exists>m. snd y = tr @ concat (replicate m (bankRound type False)) @ bankRound type True",
     OF _ assms])
  fix f :: "collaborators \<Rightarrow> bank \<Rightarrow> code \<Rightarrow> event list \<Rightarrow> (code \<times> event list) option"
    and env type c tr y
  assume IH: "\<And>env type c tr y. f env type c tr = Some y \<Longrightarrow>
      \<exists>m. snd y = tr @ concat (replicate m (bankRound type False)) @ bankRound type True"
  assume body: "(case allocate type (regsInPriorityOrder env type)
           (buildCode type (liveness env c) c (newAllocator env type c)) of None \<Rightarrow> None | Some a \<Rightarrow> 
       (case finishRound env type c a of None \<Rightarrow> None | Some c' \<Rightarrow> 
         (if spilledTmp a = [] then Some (c', tr @ [LivenessComputed, Allocated type True])
           else f env type c' (tr @ [LivenessComputed, Allocated type False])))) = Some y"
  from body obtain a where
    b1: "(case finishRound env type c a of None \<Rightarrow> None | Some c' \<Rightarrow> 
         (if spilledTmp a = [] then Some (c', tr @ [LivenessComputed, Allocated type True])
           else f env type c' (tr @ [LivenessComputed, Allocated type False]))) = Some y"
    by (rule case_option_SomeE)
  from b1 obtain c' where
    b2: "(if spilledTmp a = [] then Some (c', tr @ [LivenessComputed, Allocated type True])
           else f env type c' (tr @ [LivenessComputed, Allocated type False])) = Some y"
    by (rule case_option_SomeE)
  show "\<exists>m. snd y = tr @ concat (replicate m (bankRound type False)) @ bankRound type True"
  proof (cases "spilledTmp a = []")
    case True
    with b2 have "snd y = tr @ concat (replicate 0 (bankRound type False)) @ bankRound type True"
      by (auto simp: bankRound_def)
    then show ?thesis by blast
  next
    case False
    with b2 have "f env type c' (tr @ bankRound type False) = Some y"
      by (simp add: bankRound_def)
    from IH [OF this] obtain m where
      "snd y = (tr @ bankRound type False) @ concat (replicate m (bankRound type False)) @ bankRound type True"
      by blast
    then have "snd y = tr @ concat (replicate (Suc m) (bankRound type False)) @ bankRound type True"
      by simp
    then show ?thesis by blast
  qed
qed

lemma coupledRounds_trace:
  assumes "coupledRounds env g f c tr = Some y"
  shows "if \<not> g \<and> \<not> f
         then \<exists>n g' f' c'. y = (g', f', c', tr @ concat (replicate n (coupledRound False False))
                                              @ coupledRound g' f') \<and> (g' \<or> f')
         else y = (g, f, c, tr)"
proof (rule coupledRounds.raw_induct
    [where P = "\<lambda>env g f c tr y.
       if \<not> g \<and> \<not> f
       then \<exists>n g' f' c'. y = (g', f', c', tr @ concat (replicate n (coupledRound False False))
                                            @ coupledRound g' f') \<and> (g' \<or> f')
       else y = (g, f, c, tr)",
     OF _ assms])
  fix h :: "collaborators \<Rightarrow> bool \<Rightarrow> bool \<Rightarrow> code \<Rightarrow> event list
              \<Rightarrow> (bool \<times> bool \<times> code \<times> event list) option"
    and env g f c tr y
  assume IH: "\<And>env g f c tr y. h env g f c tr = Some y \<Longrightarrow>
       (if \<not> g \<and> \<not> f
        then \<exists>n g' f' c'. y = (g', f', c', tr @ concat (replicate n (coupledRound False False))
                                            @ coupledRound g' f') \<and> (g' \<or> f')
        else y = (g, f, c, tr))"
  assume body: "(if \<not> g \<and> \<not> f
      then (case allocate GP (regsInPriorityOrder env GP)
           (buildCode GP (liveness env c) c (newAllocator env GP c)) of None \<Rightarrow> None | Some gpAllocator \<Rightarrow> 
       (case finishRound env GP c gpAllocator of None \<Rightarrow> None | Some c1 \<Rightarrow> 
         (case allocateOn c c1 FP (regsInPriorityOrder env FP)
               (buildCode FP (liveness env c) c (newAllocator env FP c)) of None \<Rightarrow> None | Some fpAllocator \<Rightarrow> 
           (case finishRound env FP c1 fpAllocator of None \<Rightarrow> None | Some c2 \<Rightarrow> 
             h env (spilledTmp gpAllocator = []) (spilledTmp fpAllocator = []) c2
               (tr @ [LivenessComputed, Allocated GP (spilledTmp gpAllocator = []),
                      Allocated FP (spilledTmp fpAllocator = [])])))))
      else Some (g, f, c, tr)) = Some y"
  show "if \<not> g \<and> \<not> f
        then \<exists>n g' f' c'. y = (g', f', c', tr @ concat (replicate n (coupledRound False False))
                                            @ coupledRound g' f') \<and> (g' \<or> f')
        else y = (g, f, c, tr)"
  proof (cases "\<not> g \<and> \<not> f")
    case False
    with body show ?thesis by auto
  next
    case True
    with body have b0: "(case allocate GP (regsInPriorityOrder env GP)
           (buildCode GP (liveness env c) c (newAllocator env GP c)) of None \<Rightarrow> None | Some gpAllocator \<Rightarrow> 
       (case finishRound env GP c gpAllocator of None \<Rightarrow> None | Some c1 \<Rightarrow> 
         (case allocateOn c c1 FP (regsInPriorityOrder env FP)
               (buildCode FP (liveness env c) c (newAllocator env FP c)) of None \<Rightarrow> None | Some fpAllocator \<Rightarrow> 
           (case finishRound env FP c1 fpAllocator of None \<Rightarrow> None | Some c2 \<Rightarrow> 
             h env (spilledTmp gpAllocator = []) (spilledTmp fpAllocator = []) c2
               (tr @ [LivenessComputed, Allocated GP (spilledTmp gpAllocator = []),
                      Allocated FP (spilledTmp fpAllocator = [])]))))) = Some y"
      by simp
    from b0 obtain gpAllocator where
      b1: "(case finishRound env GP c gpAllocator of None \<Rightarrow> None | Some c1 \<Rightarrow> 
         (case allocateOn c c1 FP (regsInPriorityOrder env FP)
               (buildCode FP (liveness env c) c (newAllocator env FP c)) of None \<Rightarrow> None | Some fpAllocator \<Rightarrow> 
           (case finishRound env FP c1 fpAllocator of None \<Rightarrow> None | Some c2 \<Rightarrow> 
             h env (spilledTmp gpAllocator = []) (spilledTmp fpAllocator = []) c2
               (tr @ [LivenessComputed, Allocated GP (spilledTmp gpAllocator = []),
                      Allocated FP (spilledTmp fpAllocator = [])])))) = Some y"
      by (rule case_option_SomeE)
    from b1 obtain c1 where
      b2: "(case allocateOn c c1 FP (regsInPriorityOrder env FP)
               (buildCode FP (liveness env c) c (newAllocator env FP c)) of None \<Rightarrow> None | Some fpAllocator \<Rightarrow> 
           (case finishRound env FP c1 fpAllocator of None \<Rightarrow> None | Some c2 \<Rightarrow> 
             h env (spilledTmp gpAllocator = []) (spilledTmp fpAllocator = []) c2
               (tr @ [LivenessComputed, Allocated GP (spilledTmp gpAllocator = []),
                      Allocated FP (spilledTmp fpAllocator = [])]))) = Some y"
      by (rule case_option_SomeE)
    from b2 obtain fpAllocator where
      b3: "(case finishRound env FP c1 fpAllocator of None \<Rightarrow> None | Some c2 \<Rightarrow> 
             h env (spilledTmp gpAllocator = []) (spilledTmp fpAllocator = []) c2
               (tr @ [LivenessComputed, Allocated GP (spilledTmp gpAllocator = []),
                      Allocated FP (spilledTmp fpAllocator = [])])) = Some y"
      by (rule case_option_SomeE)
    from b3 obtain c2 where
      b4: "h env (spilledTmp gpAllocator = []) (spilledTmp fpAllocator = []) c2
             (tr @ [LivenessComputed, Allocated GP (spilledTmp gpAllocator = []),
                    Allocated FP (spilledTmp fpAllocator = [])]) = Some y"
      by (rule case_option_SomeE)
    define ga where "ga = (spilledTmp gpAllocator = [])"
    define fa where "fa = (spilledTmp fpAllocator = [])"
    from b4 have r: "h env ga fa c2 (tr @ coupledRound ga fa) = Some y"
      by (simp add: coupledRound_def ga_def fa_def)
    have "\<exists>n g' f' c'. y = (g', f', c', tr @ concat (replicate n (coupledRound False False))
                                            @ coupledRound g' f') \<and> (g' \<or> f')"
    proof (cases "\<not> ga \<and> \<not> fa")
      case False
      with IH [OF r] have "y = (ga, fa, c2, tr @ concat (replicate 0 (coupledRound False False))
                                            @ coupledRound ga fa)"
        by auto
      with False show ?thesis
        by (intro exI [of _ 0] exI [of _ ga] exI [of _ fa] exI [of _ c2]) auto
    next
      case both: True
      with IH [OF r] obtain n g' f' c' where
        y: "y = (g', f', c', (tr @ coupledRound False False)
                   @ concat (replicate n (coupledRound False False)) @ coupledRound g' f')"
          "g' \<or> f'"
        by auto
      then have "y = (g', f', c', tr @ concat (replicate (Suc n) (coupledRound False False))
                                     @ coupledRound g' f')"
        by simp
      with y(2) show ?thesis
        by (intro exI [of _ "Suc n"] exI [of _ g'] exI [of _ f'] exI [of _ c']) simp
    qed
    with True show ?thesis by simp
  qed
qed

text \<open>
  C4 (as amended).  A run of \<^verbatim>\<open>iteratedRegisterCoalescing\<close> that returns is a sequence
  of coupled rounds, each with one liveness computation followed by the allocation of
  the GP and of the FP bank: \<open>n\<close> rounds in which both banks spill and a last round in
  which a bank colors.  After them a bank that has not colored runs its own loop, each
  round with its own liveness computation, until it colors; a bank that colored in the
  last coupled round is not run again.
\<close>

theorem coupled_rounds_then_bank_loops:
  assumes "iteratedRegisterCoalescing env c = Some (c', tr)"
  shows "\<exists>n gp fp rest.
           tr = concat (replicate n (coupledRound False False)) @ coupledRound gp fp @ rest
         \<and> (gp \<or> fp)
         \<and> (gp \<and> fp \<longrightarrow> rest = [])
         \<and> (\<not> gp \<longrightarrow>
               (\<exists>m. rest = concat (replicate m (bankRound GP False)) @ bankRound GP True))
         \<and> (\<not> fp \<longrightarrow>
               (\<exists>m. rest = concat (replicate m (bankRound FP False)) @ bankRound FP True))"
proof -
  from assms obtain gp fp c1 tr1 where
    cr: "coupledRounds env False False c [] = Some (gp, fp, c1, tr1)" and
    rest: "(case (if \<not> gp then iteratedRegisterCoalescingOnType env GP c1 tr1
                 else Some (c1, tr1)) of
             None \<Rightarrow> None
           | Some (c2, tr2) \<Rightarrow>
               (if \<not> fp then iteratedRegisterCoalescingOnType env FP c2 tr2
                else Some (c2, tr2))) = Some (c', tr)"
    by (auto simp: iteratedRegisterCoalescing_def split: option.splits)
  from coupledRounds_trace [OF cr] obtain n where
    tr1: "tr1 = concat (replicate n (coupledRound False False)) @ coupledRound gp fp" and
    one: "gp \<or> fp"
    by auto
  show ?thesis
  proof (cases gp)
    case True
    show ?thesis
    proof (cases fp)
      case True
      with \<open>gp\<close> rest have "tr = tr1" by simp
      with tr1 \<open>gp\<close> True show ?thesis
        by (intro exI [of _ n] exI [of _ gp] exI [of _ fp] exI [of _ "[]"]) simp
    next
      case False
      with \<open>gp\<close> rest have "iteratedRegisterCoalescingOnType env FP c1 tr1 = Some (c', tr)"
        by simp
      from onType_trace [OF this] obtain m where
        "tr = tr1 @ concat (replicate m (bankRound FP False)) @ bankRound FP True"
        by auto
      with tr1 \<open>gp\<close> False show ?thesis
        by (intro exI [of _ n] exI [of _ gp] exI [of _ fp]
            exI [of _ "concat (replicate m (bankRound FP False)) @ bankRound FP True"]) auto
    qed
  next
    case False
    with one have fp by simp
    from False rest obtain c2 tr2 where
      "iteratedRegisterCoalescingOnType env GP c1 tr1 = Some (c2, tr2)"
      "(if \<not> fp then iteratedRegisterCoalescingOnType env FP c2 tr2 else Some (c2, tr2)) = Some (c', tr)"
      by (auto split: option.splits)
    with \<open>fp\<close> have "iteratedRegisterCoalescingOnType env GP c1 tr1 = Some (c', tr)"
      by simp
    from onType_trace [OF this] obtain m where
      "tr = tr1 @ concat (replicate m (bankRound GP False)) @ bankRound GP True"
      by auto
    with tr1 \<open>fp\<close> False show ?thesis
      by (intro exI [of _ n] exI [of _ gp] exI [of _ fp]
          exI [of _ "concat (replicate m (bankRound GP False)) @ bankRound GP True"]) auto
  qed
qed

text \<open>
  C4 as stated fails: on \<open>twoLive\<close> with one register per bank both banks spill in the
  first coupled round, and the entry point runs a second coupled round, again with one
  liveness computation for both banks.
\<close>

theorem two_coupled_rounds:
  "map_option snd (iteratedRegisterCoalescing oneRegister twoLive)
   = Some (coupledRound False False @ coupledRound True True)"
  by code_simp

lemma fpPressure_run:
  "map_option snd (iteratedRegisterCoalescing oneRegister fpPressure)
   = Some (coupledRound True False @ bankRound FP True)"
  by code_simp

theorem coupled_rounds_then_bank_loops_witness:
  "\<exists>c' tr. iteratedRegisterCoalescing oneRegister fpPressure = Some (c', tr)
      \<and> tr = coupledRound True False @ bankRound FP True
      \<and> (\<exists>n gp fp rest.
             tr = concat (replicate n (coupledRound False False)) @ coupledRound gp fp @ rest
           \<and> (gp \<or> fp)
           \<and> (gp \<and> fp \<longrightarrow> rest = [])
           \<and> (\<not> gp \<longrightarrow>
                 (\<exists>m. rest = concat (replicate m (bankRound GP False)) @ bankRound GP True))
           \<and> (\<not> fp \<longrightarrow>
                 (\<exists>m. rest = concat (replicate m (bankRound FP False)) @ bankRound FP True)))"
proof -
  from fpPressure_run obtain c' where
    r: "iteratedRegisterCoalescing oneRegister fpPressure
          = Some (c', coupledRound True False @ bankRound FP True)"
    by (cases "iteratedRegisterCoalescing oneRegister fpPressure") auto
  from coupled_rounds_then_bank_loops [OF r] r show ?thesis by blast
qed

text \<open>
  A round has no result when the GP half moves an instruction whose address the FP
  allocator holds.  On \<open>movesOfBothBanks\<close> the GP bank colors, its move becomes useless
  and is removed, and the address of the FP move, position 4 of the block, is then that
  of the instruction \<open>Use f1\<close>, which has one argument.  On \<open>fpMoveFirst\<close> the FP move
  stands in front of the GP move and stays in place.
\<close>

lemma moved_move_has_no_result:
  "iteratedRegisterCoalescing twoRegisters movesOfBothBanks = None"
  by code_simp

lemma move_in_place_is_read:
  "map_option snd (iteratedRegisterCoalescing twoRegisters fpMoveFirst)
   = Some (coupledRound True True)"
  by code_simp

section \<open>Properties of the spill insertion\<close>

lemma spillArg_length [simp]:
  "length (args (spillArg admits type ss j ins)) = length (args ins)"
  by (simp add: spillArg_def split: prod.splits arg.splits option.splits)

lemma spillArg_other:
  "j \<noteq> k \<Longrightarrow> args (spillArg admits type ss j ins) ! k = args ins ! k"
  by (simp add: spillArg_def split: prod.splits arg.splits option.splits)

lemma spillArg_at:
  assumes "i < length (args ins)" "args ins ! i = (Tmp t, role, argType)"
    "tmpBank t = type" "\<not> isReg t" "ss t = Some slot"
  shows "args (spillArg admits type ss i ins) ! i =
           (if admits ins i then (Stack slot, role, argType) else (Tmp t, role, argType))"
  using assms by (simp add: spillArg_def)

lemma spillArgs_fold_length [simp]:
  "length (args (fold (spillArg admits type ss) js ins)) = length (args ins)"
  by (induction js arbitrary: ins) simp_all

lemma spillArgs_fold_other:
  "k \<notin> set js \<Longrightarrow> args (fold (spillArg admits type ss) js ins) ! k = args ins ! k"
  by (induction js arbitrary: ins) (simp_all add: spillArg_other)

lemma spillArgs_nth:
  assumes "i < length (args ins)" "args ins ! i = (Tmp t, role, argType)"
    "tmpBank t = type" "\<not> isReg t" "ss t = Some slot"
  shows "args (spillArgs admits type ss ins) ! i =
           (if admits (fold (spillArg admits type ss) [0..<i] ins) i
            then (Stack slot, role, argType) else (Tmp t, role, argType))"
proof -
  let ?n = "length (args ins)"
  let ?insi = "fold (spillArg admits type ss) [0..<i] ins"
  have split: "[0..<?n] = [0..<i] @ i # [Suc i..<?n]"
  proof -
    have "[0..<?n] = [0..<i + (?n - i)]" using assms(1) by simp
    also have "\<dots> = [0..<i] @ [i..<i + (?n - i)]" by (rule upt_add_eq_append) simp
    also have "[i..<i + (?n - i)] = i # [Suc i..<?n]" using assms(1) by (simp add: upt_conv_Cons)
    finally show ?thesis .
  qed
  have at: "args ?insi ! i = (Tmp t, role, argType)"
    using assms(2) by (simp add: spillArgs_fold_other)
  have len: "i < length (args ?insi)" using assms(1) by simp
  have "args (spillArgs admits type ss ins) ! i
          = args (fold (spillArg admits type ss) [Suc i..<?n] (spillArg admits type ss i ?insi)) ! i"
    unfolding spillArgs_def by (subst split) simp
  also have "\<dots> = args (spillArg admits type ss i ?insi) ! i"
    by (simp add: spillArgs_fold_other)
  also have "\<dots> = (if admits ?insi i then (Stack slot, role, argType) else (Tmp t, role, argType))"
    using len at assms(3-5) by (simp add: spillArg_at [where ss = ss and slot = slot])
  finally show ?thesis .
qed

lemma spillTmps_Cons:
  "\<exists>sl' f s n1. n \<le> n1 \<and>
     spillTmps type ss (x # xs) n =
       (case spillTmps type ss xs n1 of
          (sls, fills, spills, n') \<Rightarrow> (sl' # sls, f @ fills, s @ spills, n'))"
proof (cases x)
  case (fields a role argType)
  show ?thesis
  proof (cases a)
    case (Tmp t)
    show ?thesis
    proof (cases "isReg t \<or> argType \<noteq> type")
      case True
      with fields Tmp show ?thesis
        by (intro exI [of _ x] exI [of _ "[]"] exI [of _ n]) (auto split: prod.splits)
    next
      case elig: False
      show ?thesis
      proof (cases "ss t")
        case None
        with fields Tmp elig show ?thesis
          by (intro exI [of _ x] exI [of _ "[]"] exI [of _ n]) (auto split: prod.splits)
      next
        case (Some slot)
        with fields Tmp elig show ?thesis
          by (intro exI [of _ "(Tmp (if isUse role then tmpForIndex type n else t), role, argType)"]
              exI [of _ "if isUse role then [fillInst type slot (tmpForIndex type n)] else []"]
              exI [of _ "if isDef role
                         then [spillInst type (if isUse role then tmpForIndex type n else t) slot]
                         else []"]
              exI [of _ "if isUse role then n + 1 else n"])
            (auto simp: Let_def split: prod.splits)
      qed
    qed
  next
    case (Stack k)
    with fields show ?thesis
      by (intro exI [of _ x] exI [of _ "[]"] exI [of _ n]) (auto split: prod.splits)
  next
    case (Imm k)
    with fields show ?thesis
      by (intro exI [of _ x] exI [of _ "[]"] exI [of _ n]) (auto split: prod.splits)
  qed
qed

lemma spillTmps_mono:
  "spillTmps type ss xs n = (sls, fills, spills, n') \<Longrightarrow> length sls = length xs \<and> n \<le> n'"
proof (induction xs arbitrary: n sls fills spills n')
  case Nil
  then show ?case by simp
next
  case (Cons x xs)
  from spillTmps_Cons [of n type ss x xs] obtain sl' f s n1 where
    n1: "n \<le> n1" and
    eq: "spillTmps type ss (x # xs) n =
           (case spillTmps type ss xs n1 of
              (sls, fills, spills, n') \<Rightarrow> (sl' # sls, f @ fills, s @ spills, n'))"
    by blast
  obtain sls2 f2 s2 n2 where r: "spillTmps type ss xs n1 = (sls2, f2, s2, n2)"
    by (cases "spillTmps type ss xs n1") auto
  from Cons.IH [OF r] eq r Cons.prems n1 show ?case by auto
qed

lemma spillTmps_nth_kept:
  assumes "spillTmps type ss xs n = (sls, fills, spills, n')" "i < length xs"
    "xs ! i = (Stack k, role, argType)"
  shows "sls ! i = (Stack k, role, argType)"
  using assms
proof (induction xs arbitrary: n sls fills spills n' i)
  case Nil
  then show ?case by simp
next
  case (Cons x xs)
  from spillTmps_Cons [of n type ss x xs] obtain sl' f s n1 where
    eq: "spillTmps type ss (x # xs) n =
           (case spillTmps type ss xs n1 of
              (sls, fills, spills, n') \<Rightarrow> (sl' # sls, f @ fills, s @ spills, n'))"
    by blast
  obtain sls2 f2 s2 n2 where r: "spillTmps type ss xs n1 = (sls2, f2, s2, n2)"
    by (cases "spillTmps type ss xs n1") auto
  show ?case
  proof (cases i)
    case 0
    with Cons.prems show ?thesis by (auto split: prod.splits)
  next
    case (Suc j)
    with Cons.prems have j: "j < length xs" "xs ! j = (Stack k, role, argType)" by simp_all
    from Cons.IH [OF r j] eq r Cons.prems(1) Suc show ?thesis by auto
  qed
qed

lemma spillTmps_nth:
  assumes "spillTmps type ss xs n = (sls, fills, spills, n')" "i < length xs"
    "xs ! i = (Tmp t, role, type)" "\<not> isReg t" "ss t = Some slot"
  shows "\<exists>t'. sls ! i = (Tmp t', role, type)
           \<and> (if isUse role
               then (\<exists>k. n \<le> k \<and> k < n' \<and> t' = tmpForIndex type k)
                    \<and> fillInst type slot t' \<in> set fills
               else t' = t)
           \<and> (isDef role \<longrightarrow> spillInst type t' slot \<in> set spills)"
  using assms
proof (induction xs arbitrary: n sls fills spills n' i)
  case Nil
  then show ?case by simp
next
  case (Cons x xs)
  show ?case
  proof (cases i)
    case 0
    with Cons.prems have x: "x = (Tmp t, role, type)" by simp
    let ?t' = "if isUse role then tmpForIndex type n else t"
    let ?n1 = "if isUse role then n + 1 else n"
    obtain sls2 f2 s2 n2 where r: "spillTmps type ss xs ?n1 = (sls2, f2, s2, n2)"
      by (cases "spillTmps type ss xs ?n1") auto
    from spillTmps_mono [OF r] have le: "?n1 \<le> n2" by simp
    from Cons.prems(1) x r Cons.prems(4,5)
    have res: "sls = (Tmp ?t', role, type) # sls2"
      "fills = (if isUse role then [fillInst type slot (tmpForIndex type n)] else []) @ f2"
      "spills = (if isDef role then [spillInst type ?t' slot] else []) @ s2"
      "n' = n2"
      by (auto simp: Let_def split: if_splits)
    show ?thesis
    proof (cases "isUse role")
      case True
      with res le 0 show ?thesis by (intro exI [of _ ?t']) auto
    next
      case False
      with res le 0 show ?thesis by (intro exI [of _ ?t']) auto
    qed
  next
    case (Suc j)
    from spillTmps_Cons [of n type ss x xs] obtain sl' f s n1 where
      n1: "n \<le> n1" and
      eq: "spillTmps type ss (x # xs) n =
             (case spillTmps type ss xs n1 of
                (sls, fills, spills, n') \<Rightarrow> (sl' # sls, f @ fills, s @ spills, n'))"
      by blast
    obtain sls2 f2 s2 n2 where r: "spillTmps type ss xs n1 = (sls2, f2, s2, n2)"
      by (cases "spillTmps type ss xs n1") auto
    from Suc Cons.prems have j: "j < length xs" "xs ! j = (Tmp t, role, type)" by simp_all
    from Cons.IH [OF r j Cons.prems(4,5)] obtain t' where
      t': "sls2 ! j = (Tmp t', role, type)"
      "if isUse role
       then (\<exists>k. n1 \<le> k \<and> k < n2 \<and> t' = tmpForIndex type k)
            \<and> fillInst type slot t' \<in> set f2
       else t' = t"
      "isDef role \<longrightarrow> spillInst type t' slot \<in> set s2"
      by blast
    from eq r Cons.prems(1) have res: "sls = sl' # sls2" "fills = f @ f2" "spills = s @ s2" "n' = n2"
      by auto
    show ?thesis
    proof (cases "isUse role")
      case True
      with t' obtain k where "n1 \<le> k" "k < n2" "t' = tmpForIndex type k"
        "fillInst type slot t' \<in> set f2" by auto
      with n1 res t' Suc True show ?thesis
        by (intro exI [of _ t']) (auto intro: exI [of _ k])
    next
      case False
      with t' res Suc show ?thesis by (intro exI [of _ t']) auto
    qed
  qed
qed

text \<open>
  C2 (as amended).  An argument \<open>i\<close> of an instruction that names a spilled temporary
  of the bank is replaced by the stack slot exactly when \<^verbatim>\<open>admitsStack(i)\<close> holds on the
  instruction as the first loop has rewritten it so far, whatever the role of the
  argument.  When \<^verbatim>\<open>admitsStack(i)\<close> does not hold, an argument that is used is renamed
  to a new temporary of the bank that is filled from the slot before the instruction; an
  argument that is only defined keeps its temporary; and an argument that is defined is
  stored to the slot after the instruction.
\<close>

theorem spill_by_admitsStack_alone:
  assumes "i < length (args ins)"
    and "args ins ! i = (Tmp t, role, type)"
    and "tmpBank t = type" and "\<not> isReg t"
    and "stackSlots t = Some slot"
    and "spillInstruction admits type stackSlots ins n = (out, n')"
  shows "\<exists>fills ins' spills.
           out = fills @ [ins'] @ spills
         \<and> length (args ins') = length (args ins)
         \<and> (if admits (fold (spillArg admits type stackSlots) [0..<i] ins) i
            then args ins' ! i = (Stack slot, role, type)
            else (\<exists>t'. args ins' ! i = (Tmp t', role, type)
                   \<and> (if isUse role
                       then (\<exists>k. n \<le> k \<and> k < n' \<and> t' = tmpForIndex type k)
                            \<and> fillInst type slot t' \<in> set fills
                       else t' = t)
                   \<and> (isDef role \<longrightarrow> spillInst type t' slot \<in> set spills)))"
proof -
  let ?ins1 = "spillArgs admits type stackSlots ins"
  let ?a = "admits (fold (spillArg admits type stackSlots) [0..<i] ins) i"
  obtain sls fills spills m where
    r: "spillTmps type stackSlots (args ?ins1) n = (sls, fills, spills, m)"
    by (cases "spillTmps type stackSlots (args ?ins1) n") auto
  from assms(6) r have out: "out = fills @ [?ins1\<lparr> args := sls \<rparr>] @ spills" and m: "n' = m"
    by (simp_all add: spillInstruction_def Let_def)
  have len1: "length (args ?ins1) = length (args ins)" by (simp add: spillArgs_def)
  from spillTmps_mono [OF r] len1 have len: "length sls = length (args ins)" by simp
  have i1: "i < length (args ?ins1)" using assms(1) len1 by simp
  have at: "args ?ins1 ! i = (if ?a then (Stack slot, role, type) else (Tmp t, role, type))"
    using assms(1-5) by (simp add: spillArgs_nth [where ss = stackSlots and slot = slot])
  show ?thesis
  proof (cases ?a)
    case True
    with at have "args ?ins1 ! i = (Stack slot, role, type)" by simp
    from spillTmps_nth_kept [OF r i1 this] True out len show ?thesis
      by - (rule exI [of _ fills], rule exI [of _ "?ins1\<lparr> args := sls \<rparr>"],
          rule exI [of _ spills], simp)
  next
    case False
    with at have "args ?ins1 ! i = (Tmp t, role, type)" by simp
    from spillTmps_nth [OF r i1 this assms(4,5)] False out len m show ?thesis
      by - (rule exI [of _ fills], rule exI [of _ "?ins1\<lparr> args := sls \<rparr>"],
          rule exI [of _ spills], auto)
  qed
qed

text \<open>
  C2 as stated fails: when the instruction admits a stack argument, a \<open>UseDef\<close> argument
  is replaced by the stack slot; no temporary is created and no move is inserted.
\<close>

theorem useDef_replaced_by_stack_slot:
  "addSpillAndFillToProgram (\<lambda>_ _. True) GP
     \<lparr> blocks = [[\<lparr> opcode = Opcode 0, args = [(Tmp (GPTmp 0), UseDef, GP)] \<rparr>]],
       numGPTmps = 1, numFPTmps = 0, numStackSlots = 0 \<rparr> [GPTmp 0]
   = \<lparr> blocks = [[\<lparr> opcode = Opcode 0, args = [(Stack 0, UseDef, GP)] \<rparr>]],
       numGPTmps = 1, numFPTmps = 0, numStackSlots = 1 \<rparr>"
  by code_simp


lemma useDef_without_admission:
  "spillInstruction (\<lambda>_ _. False) GP [GPTmp 0 \<mapsto> 0] (unary UseDef (GPTmp 0)) 1
   = ([fillInst GP 0 (GPTmp 1), unary UseDef (GPTmp 1), spillInst GP (GPTmp 1) 0], 2)"
  by code_simp

text \<open>
  A \<open>UseDef\<close> argument of an instruction that does not admit a stack argument: the
  temporary \<open>GPTmp 1\<close> is new, filled before and stored after the instruction.
\<close>

theorem spill_by_admitsStack_alone_witness:
  "\<exists>fills ins' spills.
     [fillInst GP 0 (GPTmp 1), unary UseDef (GPTmp 1), spillInst GP (GPTmp 1) 0]
       = fills @ [ins'] @ spills
   \<and> length (args ins') = 1
   \<and> (\<exists>t'. args ins' ! 0 = (Tmp t', UseDef, GP)
          \<and> (\<exists>k. 1 \<le> k \<and> k < 2 \<and> t' = tmpForIndex GP k)
          \<and> fillInst GP 0 t' \<in> set fills
          \<and> spillInst GP t' 0 \<in> set spills)"
proof -
  have i: "0 < length (args (unary UseDef (GPTmp 0)))" by (simp add: unary_def)
  have a: "args (unary UseDef (GPTmp 0)) ! 0 = (Tmp (GPTmp 0), UseDef, GP)"
    by (simp add: unary_def)
  have b: "tmpBank (GPTmp 0) = GP" by simp
  have r: "\<not> isReg (GPTmp 0)" by simp
  have sl: "[GPTmp 0 \<mapsto> 0] (GPTmp 0) = Some (0::nat)" by simp
  from spill_by_admitsStack_alone [OF i a b r sl useDef_without_admission]
  show ?thesis by (simp add: unary_def)
qed

end
